theory Spec2Isabelle
  imports Complex_Main "HOL-Library.Word" "HOL-Library.Sublist" "HOL-Library.AList"
begin

section \<open>The delivery pipeline of \<^verbatim>\<open>bot.py\<close>\<close>

text \<open>
  The development embeds the delivery pipeline of \<^verbatim>\<open>src/bot.py\<close>: the module-level
  configuration check, \<^verbatim>\<open>send_file\<close>, \<^verbatim>\<open>split_and_send_zip\<close> with its helpers,
  \<^verbatim>\<open>process_file\<close> and the body of the scheduling loop of \<^verbatim>\<open>main\<close>.

  Python globals (\<^verbatim>\<open>file_history\<close>, \<^verbatim>\<open>file_counter\<close>, \<^verbatim>\<open>error_messages\<close>) and
  everything the program can observe or change outside itself (files, the chat, the
  persisted history, the telemetry sink) are fields of one record that every function
  takes and returns. Exceptions are values: a function that can raise returns
  \<open>exn + 'a\<close>. \<^verbatim>\<open>send_file\<close> calls itself, so it and every function that sends return
  an \<open>option\<close>, where \<open>None\<close> stands for a call that never returns; the bound of the
  interpreter on calls inside one another is part of the model, and with it every call
  returns.

  File names and texts are strings of 8-bit characters.

  Left out, because no control flow depends on them: logging, the two
  \<^verbatim>\<open>AsyncLimiter\<close> budgets (they only delay), and the wall-clock fields of a history
  record (\<^verbatim>\<open>last_sent\<close>, \<^verbatim>\<open>processing_time\<close>, \<^verbatim>\<open>upload_speed\<close>).
\<close>

subsection \<open>Strings and paths\<close>

type_synonym path = string
type_synonym byte = "8 word"
type_synonym bytes = "byte list"

text \<open>\<^verbatim>\<open>str(n)\<close> and the format \<^verbatim>\<open>{n:03d}\<close> for a non-negative integer.\<close>

definition digit_char :: "nat \<Rightarrow> char" where
  "digit_char d = ''0123456789'' ! (d mod 10)"

fun str_nat :: "nat \<Rightarrow> string" where
  "str_nat n = (if n < 10 then [digit_char n] else str_nat (n div 10) @ [digit_char (n mod 10)])"

declare str_nat.simps [simp del]

definition fmt_03d :: "nat \<Rightarrow> string" where
  "fmt_03d n = replicate (3 - length (str_nat n)) (CHR ''0'') @ str_nat n"

text \<open>\<^verbatim>\<open>str.lower()\<close>; only the letters \<^verbatim>\<open>A\<close> to \<^verbatim>\<open>Z\<close> have a lower case here.\<close>

definition lower_char :: "char \<Rightarrow> char" where
  "lower_char c =
     (let n = (of_char c :: nat) in if 65 \<le> n \<and> n \<le> 90 then char_of (n + 32) else c)"

definition lower :: "string \<Rightarrow> string" where
  "lower s = map lower_char s"

definition endswith :: "string \<Rightarrow> string \<Rightarrow> bool" where
  "endswith s suf = suffix suf s"

text \<open>\<^verbatim>\<open>os.path.basename\<close> and \<^verbatim>\<open>os.path.join\<close> (POSIX).\<close>

definition basename :: "path \<Rightarrow> string" where
  "basename p = rev (takeWhile (\<lambda>c. c \<noteq> CHR ''/'') (rev p))"

definition join :: "path \<Rightarrow> string \<Rightarrow> path" where
  "join a b =
     (if b \<noteq> [] \<and> hd b = CHR ''/'' then b
      else if a = [] \<or> last a = CHR ''/'' then a @ b
      else a @ ''/'' @ b)"

text \<open>
  \<^verbatim>\<open>telegram.helpers.escape_markdown(text, version=2)\<close>: every character of
  \<^verbatim>\<open>\_*[]()~`>#+-=|{}.!\<close> gets a backslash in front.
\<close>

definition backslash :: char where
  "backslash = CHR 0x5C"

definition escape_chars :: string where
  "escape_chars = backslash # ''_*[]()~'' @ [CHR 0x60] @ ''>#+-=|{}.!''"

definition escape_markdown :: "string \<Rightarrow> string" where
  "escape_markdown text = concat (map (\<lambda>c. if c \<in> set escape_chars then [backslash, c] else [c]) text)"

subsection \<open>Configuration\<close>

text \<open>
  The module-level settings of \<^verbatim>\<open>bot.py\<close> (lines 31 to 48), after parsing.
  \<^verbatim>\<open>MAX_FILE_SIZE\<close> is the constant \<^verbatim>\<open>45 * 1024 * 1024\<close> in the source; the record
  carries it so that the properties of the splitter are proved for every part size.
\<close>

record settings =
  CHAT_ID :: int
  FORWARD_CHAT_ID :: int
  ENABLE_FORWARD :: bool
  CHECK_INTERVAL :: nat
  MAX_FILE_SIZE :: nat
  ENABLE_ENCRYPTION :: bool
  ZIP_PASSWORD :: string
  ALLOWED_EXTENSIONS :: "string list"
  COMPRESSION_LEVEL :: string

definition MAX_FILE_SIZE_bot :: nat where
  "MAX_FILE_SIZE_bot = 45 * 1024 * 1024"

text \<open>
  The exceptions that leave a function. \<open>TelegramException\<close> is a \<^verbatim>\<open>TelegramError\<close>
  raised by \<^verbatim>\<open>bot.send_message\<close> or \<^verbatim>\<open>bot.delete_message\<close>.
\<close>

datatype exn =
    ValueError string
  | FileNotFoundError path
  | ZeroDivisionError
  | RuntimeError
  | RecursionError
  | TelegramException

text \<open>
  Lines 43 to 52: \<^verbatim>\<open>COMPRESSION_LEVEL\<close> is the configured text in lower case, and the
  module raises \<^verbatim>\<open>ValueError\<close> when encryption is on and the level is \<^verbatim>\<open>none\<close>.
  The check runs while the module is loaded, before \<^verbatim>\<open>main\<close> exists.
\<close>

definition validate_configuration :: "settings \<Rightarrow> exn + unit" where
  "validate_configuration c =
     (if ENABLE_ENCRYPTION c \<and> COMPRESSION_LEVEL c = ''none''
      then Inl (ValueError ''Error: Encryption cannot be enabled when compression is set to 'none'.'')
      else Inr ())"

subsection \<open>The world outside the program\<close>

text \<open>
  The \<^verbatim>\<open>Retry-After\<close> header of a response, for line 136: missing, a text that
  \<^verbatim>\<open>int()\<close> reads as this number, or a text that \<^verbatim>\<open>int()\<close> rejects.
\<close>

datatype header = Missing | Seconds int | Malformed

text \<open>
  The answer of the transport to one call of \<^verbatim>\<open>bot.send_document\<close>:
  \<^item> \<open>Delivered\<close>: the message is sent.
  \<^item> \<open>RetryAfter n\<close>: \<^verbatim>\<open>telegram.error.RetryAfter\<close>, the exception with which the library
    (python-telegram-bot from version 20, whose coroutines \<^verbatim>\<open>bot.py\<close> awaits) signals
    flood control. It carries the delay in its attribute \<^verbatim>\<open>retry_after\<close> and, like every
    \<^verbatim>\<open>TelegramError\<close> of the library, has no attribute \<^verbatim>\<open>response\<close>.
  \<^item> \<open>FloodControl h\<close>: a \<^verbatim>\<open>TelegramError\<close> with an attribute \<^verbatim>\<open>response\<close> whose status
    is 429 and whose \<^verbatim>\<open>Retry-After\<close> header is \<open>h\<close>. This is the exception that line
    135 tests for; the library raises none of this shape.
  \<^item> \<open>TelegramError\<close>: any other \<^verbatim>\<open>TelegramError\<close>.
\<close>

datatype reply = Delivered | RetryAfter nat | FloodControl header | TelegramError

text \<open>One value of \<^verbatim>\<open>file_history\<close> (lines 327 to 338), without its wall-clock fields.\<close>

record file_data =
  hash :: string
  send_success :: bool
  encrypted :: bool
  encryption_algorithm :: string
  file_id :: int
  file_size :: nat
  processed_size :: nat

text \<open>The body of a \<^verbatim>\<open>POST /event\<close> (lines 258 to 266), without its wall-clock fields.\<close>

record backend_event =
  event_type :: string
  event_file :: string
  event_file_id :: int
  event_hash :: string
  event_file_size :: nat

text \<open>
  What the program is given and never changes: its settings, the library functions it
  calls (\<^verbatim>\<open>hashlib.md5\<close>; writing a single-entry archive with \<^verbatim>\<open>zipfile\<close> or
  \<^verbatim>\<open>pyzipper\<close>, from the compression method, the password if any, the entry name and
  the content), the behaviour of the transport and the depth of the call stack:
  \<open>send_document E n\<close> is the answer to call number \<open>n\<close> of \<^verbatim>\<open>bot.send_document\<close>;
  \<open>may_forward E m\<close> tells whether message \<open>m\<close> can be forwarded (the bot is not kicked
  and no error is raised); \<open>send_message E n\<close> and \<open>delete_message E n\<close> tell whether
  call number \<open>n\<close> of \<^verbatim>\<open>bot.send_message\<close> and of \<^verbatim>\<open>bot.delete_message\<close> goes through
  (otherwise it raises \<^verbatim>\<open>TelegramError\<close>); \<open>recursion_limit E\<close> is the number of calls
  of \<^verbatim>\<open>send_file\<close> inside one another that the interpreter allows before it raises
  \<^verbatim>\<open>RecursionError\<close>.
\<close>

datatype compression = ZIP_DEFLATED | ZIP_STORED

record env =
  cfg :: settings
  md5 :: "bytes \<Rightarrow> string"
  zip_write :: "compression \<Rightarrow> string option \<Rightarrow> string \<Rightarrow> bytes \<Rightarrow> bytes"
  send_document :: "nat \<Rightarrow> reply"
  may_forward :: "nat \<Rightarrow> bool"
  send_message :: "nat \<Rightarrow> bool"
  delete_message :: "nat \<Rightarrow> bool"
  recursion_limit :: nat

text \<open>
  The globals of the module (\<open>file_history\<close>, \<open>file_counter\<close>, \<open>error_messages\<close>; a
  dictionary is an association list in insertion order) and the observable world: the
  files, the number of temporary directories made so far, every call of
  \<^verbatim>\<open>send_document\<close> with the file sent, its content, its caption and the answer, the
  sleeps, every call of \<^verbatim>\<open>send_message\<close> (chat, text, and the id of the message, or
  \<open>None\<close> when the call raised), every call of \<^verbatim>\<open>delete_message\<close> (chat, message id,
  and whether it went through), the messages forwarded, the persisted history and the
  telemetry events.
\<close>

record state =
  file_history :: "(path \<times> file_data) list"
  file_counter :: int
  error_messages :: "(path \<times> nat) list"
  files :: "(path \<times> bytes) list"
  temp_dirs :: nat
  documents :: "(path \<times> bytes \<times> string \<times> reply) list"
  sleeps :: "nat list"
  messages :: "(int \<times> string \<times> nat option) list"
  next_message_id :: nat
  deleted :: "(int \<times> nat \<times> bool) list"
  forwarded :: "(int \<times> nat) list"
  saved_history :: "(path \<times> file_data) list"
  backend_events :: "backend_event list"

definition read_file :: "state \<Rightarrow> path \<Rightarrow> exn + bytes" where
  "read_file s p = (case map_of (files s) p of None \<Rightarrow> Inl (FileNotFoundError p) | Some b \<Rightarrow> Inr b)"

definition write_file :: "path \<Rightarrow> bytes \<Rightarrow> state \<Rightarrow> state" where
  "write_file p b s = s\<lparr>files := AList.update p b (files s)\<rparr>"

definition getsize :: "state \<Rightarrow> path \<Rightarrow> exn + nat" where
  "getsize s p = (case map_of (files s) p of None \<Rightarrow> Inl (FileNotFoundError p) | Some b \<Rightarrow> Inr (length b))"

text \<open>\<^verbatim>\<open>bot.send_message\<close>, with the id of the message sent, and \<^verbatim>\<open>bot.delete_message\<close>.\<close>

definition bot_send_message :: "env \<Rightarrow> int \<Rightarrow> string \<Rightarrow> state \<Rightarrow> (exn + nat) \<times> state" where
  "bot_send_message E chat text s =
     (if send_message E (length (messages s))
      then (Inr (next_message_id s),
            s\<lparr>messages := messages s @ [(chat, text, Some (next_message_id s))],
              next_message_id := next_message_id s + 1\<rparr>)
      else (Inl TelegramException, s\<lparr>messages := messages s @ [(chat, text, None)]\<rparr>))"

definition bot_delete_message :: "env \<Rightarrow> int \<Rightarrow> nat \<Rightarrow> state \<Rightarrow> (exn + unit) \<times> state" where
  "bot_delete_message E chat message_id s =
     (if delete_message E (length (deleted s))
      then (Inr (), s\<lparr>deleted := deleted s @ [(chat, message_id, True)]\<rparr>)
      else (Inl TelegramException, s\<lparr>deleted := deleted s @ [(chat, message_id, False)]\<rparr>))"

subsection \<open>Sending one file\<close>

text \<open>\<^verbatim>\<open>calculate_md5\<close> (lines 103 to 109).\<close>

definition calculate_md5 :: "env \<Rightarrow> state \<Rightarrow> path \<Rightarrow> exn + string" where
  "calculate_md5 E s file_path =
     (case read_file s file_path of Inl e \<Rightarrow> Inl e | Inr b \<Rightarrow> Inr (md5 E b))"

text \<open>
  \<^verbatim>\<open>forward_message\<close> (lines 147 to 159). It catches every \<^verbatim>\<open>TelegramError\<close>, so it
  either forwards the message or does nothing.
\<close>

definition forward_message :: "env \<Rightarrow> nat \<Rightarrow> state \<Rightarrow> state" where
  "forward_message E message_id s =
     (if may_forward E message_id
      then s\<lparr>forwarded := forwarded s @ [(FORWARD_CHAT_ID (cfg E), message_id)]\<rparr>
      else s)"

text \<open>Line 117: the part marker appended to an escaped caption.\<close>

definition part_marker :: "nat option \<Rightarrow> nat option \<Rightarrow> string" where
  "part_marker part_number total_parts =
     (case (part_number, total_parts) of
        (Some i, Some n) \<Rightarrow>
          [CHR 0x0A, backslash] @ ''(Part '' @ str_nat i @ ''/'' @ str_nat n @ [backslash] @ '')''
      | _ \<Rightarrow> [])"

text \<open>
  Lines 124 to 133: what \<^verbatim>\<open>send_file\<close> does once the document is delivered. The
  result is \<^verbatim>\<open>True\<close>, or the \<^verbatim>\<open>TelegramError\<close> of \<^verbatim>\<open>bot.delete_message\<close>.
\<close>

definition after_delivery :: "env \<Rightarrow> path \<Rightarrow> state \<Rightarrow> (exn + bool) \<times> state" where
  "after_delivery E file_path s =
     (let message_id = next_message_id s;
          s1 = s\<lparr>next_message_id := message_id + 1\<rparr>;
          s2 = (if ENABLE_FORWARD (cfg E) then forward_message E message_id s1 else s1)
      in case map_of (error_messages s2) file_path of
           None \<Rightarrow> (Inr True, s2)
         | Some notice \<Rightarrow>
            (case bot_delete_message E (CHAT_ID (cfg E)) notice s2 of
               (Inl e, s3) \<Rightarrow> (Inl e, s3)
             | (Inr u, s3) \<Rightarrow>
                 (Inr True, s3\<lparr>error_messages := AList.delete file_path (error_messages s3)\<rparr>)))"

text \<open>
  Lines 141 to 145: the branch of the handler for an error without a response of status
  429. The notice is sent inside the handler, so a \<^verbatim>\<open>TelegramError\<close> of
  \<^verbatim>\<open>bot.send_message\<close> leaves \<^verbatim>\<open>send_file\<close>.
\<close>

definition after_error :: "env \<Rightarrow> path \<Rightarrow> state \<Rightarrow> (exn + bool) \<times> state" where
  "after_error E file_path s =
     (case bot_send_message E (CHAT_ID (cfg E)) (''Error sending file: '' @ file_path @ ''. Check logs.'') s of
        (Inl e, s1) \<Rightarrow> (Inl e, s1)
      | (Inr notice, s1) \<Rightarrow>
          (Inr False, s1\<lparr>error_messages := AList.update file_path notice (error_messages s1)\<rparr>))"

text \<open>
  Line 136: \<^verbatim>\<open>int(e.response.headers.get('Retry-After', 1))\<close>. \<^verbatim>\<open>int()\<close> raises
  \<^verbatim>\<open>ValueError\<close> on a text that is not a number.
\<close>

definition retry_after :: "header \<Rightarrow> exn + int" where
  "retry_after h =
     (case h of
        Missing \<Rightarrow> Inr 1
      | Seconds n \<Rightarrow> Inr n
      | Malformed \<Rightarrow> Inl (ValueError ''invalid literal for int() with base 10''))"

text \<open>
  \<^verbatim>\<open>send_file\<close> (lines 111 to 145). \<open>nested\<close> is the number of calls of \<^verbatim>\<open>send_file\<close>
  that are waiting for this one; a call from outside has none. Opening a missing file
  raises outside the handler of \<^verbatim>\<open>TelegramError\<close>. The handler covers the whole
  \<^verbatim>\<open>try\<close> block, so it also gets the \<^verbatim>\<open>TelegramError\<close> of \<^verbatim>\<open>bot.delete_message\<close>, which
  has no \<^verbatim>\<open>response\<close>. On an error whose response has status 429 the function sleeps
  (\<^verbatim>\<open>asyncio.sleep\<close> with a delay that is not positive suspends for no time) and calls
  itself with the same arguments. Every other error, \<^verbatim>\<open>RetryAfter\<close> among them, takes
  the branch of line 140.
\<close>

partial_function (option) send_file ::
  "env \<Rightarrow> path \<Rightarrow> string \<Rightarrow> nat option \<Rightarrow> nat option \<Rightarrow> nat \<Rightarrow> state \<Rightarrow> ((exn + bool) \<times> state) option"
where
  "send_file E file_path caption part_number total_parts nested s =
     (if recursion_limit E \<le> nested then Some (Inl RecursionError, s)
      else
        let escaped_caption = escape_markdown caption @ part_marker part_number total_parts
        in case read_file s file_path of
             Inl e \<Rightarrow> Some (Inl e, s)
           | Inr content \<Rightarrow>
              (let r = send_document E (length (documents s));
                   s1 = s\<lparr>documents := documents s @ [(file_path, content, escaped_caption, r)]\<rparr>
               in case r of
                    Delivered \<Rightarrow>
                      (case after_delivery E file_path s1 of
                         (Inl e, s2) \<Rightarrow> Some (after_error E file_path s2)
                       | (Inr success, s2) \<Rightarrow> Some (Inr success, s2))
                  | FloodControl h \<Rightarrow>
                      (case retry_after h of
                         Inl e \<Rightarrow> Some (Inl e, s1)
                       | Inr seconds \<Rightarrow>
                           send_file E file_path caption part_number total_parts (nested + 1)
                             (s1\<lparr>sleeps := sleeps s1 @ [nat seconds]\<rparr>))
                  | RetryAfter seconds \<Rightarrow> Some (after_error E file_path s1)
                  | TelegramError \<Rightarrow> Some (after_error E file_path s1)))"

declare send_file.simps [code]

subsection \<open>Archives and temporary directories\<close>

text \<open>
  \<^verbatim>\<open>tempfile.TemporaryDirectory()\<close>: a directory with a name not used before; leaving
  the \<^verbatim>\<open>with\<close> block removes it and the files in it, on every exit path.
\<close>

definition tempdir_name :: "nat \<Rightarrow> path" where
  "tempdir_name n = ''/tmp/tmp'' @ str_nat n"

definition mkdtemp :: "state \<Rightarrow> path \<times> state" where
  "mkdtemp s = (tempdir_name (temp_dirs s), s\<lparr>temp_dirs := temp_dirs s + 1\<rparr>)"

definition cleanup :: "path \<Rightarrow> state \<Rightarrow> state" where
  "cleanup temp_dir s = s\<lparr>files := filter (\<lambda>(p, b). \<not> prefix (temp_dir @ ''/'') p) (files s)\<rparr>"

text \<open>\<^verbatim>\<open>os.remove\<close>.\<close>

definition remove :: "path \<Rightarrow> state \<Rightarrow> exn + state" where
  "remove p s =
     (case map_of (files s) p of
        None \<Rightarrow> Inl (FileNotFoundError p)
      | Some b \<Rightarrow> Inr (s\<lparr>files := AList.delete p (files s)\<rparr>))"

text \<open>
  Lines 213 to 221 and, with the same text, lines 296 to 303: write the single-entry
  archive of \<open>file_path\<close> at \<open>zip_path\<close>. \<^verbatim>\<open>pyzipper\<close> takes an empty password for
  none and raises \<^verbatim>\<open>RuntimeError\<close> when it has to encrypt the entry. What a failed
  attempt leaves at \<open>zip_path\<close> is never read and goes with the temporary directory.
\<close>

definition write_archive :: "env \<Rightarrow> path \<Rightarrow> string \<Rightarrow> path \<Rightarrow> state \<Rightarrow> exn + state" where
  "write_archive E file_path base_name zip_path s =
     (let compression = (if COMPRESSION_LEVEL (cfg E) = ''default'' then ZIP_DEFLATED else ZIP_STORED);
          password = (if ENABLE_ENCRYPTION (cfg E) then Some (ZIP_PASSWORD (cfg E)) else None)
      in case read_file s file_path of
           Inl e \<Rightarrow> Inl e
         | Inr content \<Rightarrow>
             if ENABLE_ENCRYPTION (cfg E) \<and> ZIP_PASSWORD (cfg E) = [] then Inl RuntimeError
             else Inr (write_file zip_path (zip_write E compression password base_name content) s))"

text \<open>\<^verbatim>\<open>create_zip_archive\<close> (lines 208 to 224).\<close>

definition create_zip_archive :: "env \<Rightarrow> path \<Rightarrow> string \<Rightarrow> path \<Rightarrow> bool \<Rightarrow> state \<Rightarrow> (exn + path) \<times> state" where
  "create_zip_archive E file_path base_name temp_dir skip_zip s =
     (if \<not> skip_zip \<and> COMPRESSION_LEVEL (cfg E) \<noteq> ''none'' \<and> \<not> endswith (lower file_path) ''.zip''
      then let zip_path = join temp_dir (base_name @ ''.zip'')
           in case write_archive E file_path base_name zip_path s of
                Inl e \<Rightarrow> (Inl e, s)
              | Inr s1 \<Rightarrow> (Inr zip_path, s1)
      else (Inr file_path, s))"

subsection \<open>Splitting\<close>

text \<open>The text of lines 228 to 241.\<close>

definition reassembly_instructions :: "env \<Rightarrow> string \<Rightarrow> nat \<Rightarrow> string" where
  "reassembly_instructions E base_name file_number =
     (let encryption_note =
            (if ENABLE_ENCRYPTION (cfg E)
             then ''The ZIP file is encrypted. You'll need the password to extract it.''
             else ''The ZIP file is not encrypted.'');
          fence = replicate 3 (CHR 0x60);
          nl = [CHR 0x0A]
      in fence @ nl
         @ ''To reassemble the file:'' @ nl
         @ ''1. Download all parts ('' @ str_nat (file_number - 1) @ '' in total)'' @ nl
         @ ''2. Use one of the following commands:'' @ nl
         @ ''   # Windows'' @ nl
         @ ''   copy /b '' @ base_name @ ''.zip.* '' @ base_name @ ''.zip'' @ nl
         @ nl
         @ ''   # Linux/Mac'' @ nl
         @ ''   cat '' @ base_name @ ''.zip.* > '' @ base_name @ ''.zip'' @ nl
         @ ''3. Extract '' @ base_name @ ''.zip'' @ nl
         @ nl
         @ encryption_note @ nl
         @ fence)"

text \<open>\<^verbatim>\<open>send_reassembly_instructions\<close> (lines 226 to 246).\<close>

definition send_reassembly_instructions :: "env \<Rightarrow> string \<Rightarrow> nat \<Rightarrow> state \<Rightarrow> (exn + unit) \<times> state" where
  "send_reassembly_instructions E base_name file_number s =
     (let instructions = reassembly_instructions E base_name file_number
      in case bot_send_message E (CHAT_ID (cfg E)) instructions s of
           (Inl e, s1) \<Rightarrow> (Inl e, s1)
         | (Inr m, s1) \<Rightarrow>
             if FORWARD_CHAT_ID (cfg E) \<noteq> 0 \<and> ENABLE_FORWARD (cfg E)
             then (case bot_send_message E (FORWARD_CHAT_ID (cfg E)) instructions s1 of
                     (Inl e, s2) \<Rightarrow> (Inl e, s2)
                   | (Inr m, s2) \<Rightarrow> (Inr (), s2))
             else (Inr (), s1))"

text \<open>\<^verbatim>\<open>send_error_message\<close> (lines 248 to 251).\<close>

definition send_error_message :: "env \<Rightarrow> string \<Rightarrow> state \<Rightarrow> (exn + unit) \<times> state" where
  "send_error_message E base_name s =
     (case bot_send_message E (CHAT_ID (cfg E)) (''Error processing file: '' @ base_name @ ''. Check logs.'') s of
        (Inl e, s1) \<Rightarrow> (Inl e, s1)
      | (Inr m, s1) \<Rightarrow> (Inr (), s1))"

text \<open>Line 174; the division raises when the part size is zero.\<close>

definition count_parts :: "nat \<Rightarrow> nat \<Rightarrow> exn + nat" where
  "count_parts zip_size chunk_size =
     (if chunk_size = 0 then Inl ZeroDivisionError
      else Inr (zip_size div chunk_size + (if zip_size mod chunk_size \<noteq> 0 then 1 else 0)))"

text \<open>
  The loop of lines 177 to 194. \<open>rest\<close> is what \<^verbatim>\<open>zip_file\<close> has not read yet. The
  result is the success flag with the value of \<open>file_number\<close> when the loop ends.
\<close>

function send_parts ::
  "env \<Rightarrow> path \<Rightarrow> string \<Rightarrow> nat \<Rightarrow> nat \<Rightarrow> bytes \<Rightarrow> nat \<Rightarrow> state \<Rightarrow> ((exn + bool \<times> nat) \<times> state) option"
where
  "send_parts E temp_dir base_name chunk_size total_parts rest file_number s =
     (let chunk = take chunk_size rest
      in if chunk = [] then Some (Inr (True, file_number), s)
         else
           let chunk_name = join temp_dir (base_name @ ''.'' @ fmt_03d file_number);
               s1 = write_file chunk_name chunk s;
               caption = ''Part '' @ str_nat file_number @ '' of '' @ base_name
           in case send_file E chunk_name caption (Some file_number) (Some total_parts) 0 s1 of
                None \<Rightarrow> None
              | Some (Inl e, s2) \<Rightarrow> Some (Inl e, s2)
              | Some (Inr success, s2) \<Rightarrow>
                  if \<not> success then Some (Inr (False, file_number), s2)
                  else send_parts E temp_dir base_name chunk_size total_parts
                         (drop chunk_size rest) (file_number + 1)
                         (s2\<lparr>file_counter := file_counter s2 + 1\<rparr>))"
  by pat_completeness auto
termination
  by (relation "measure (\<lambda>(E, temp_dir, base_name, chunk_size, total_parts, rest, file_number, s). length rest)")
     auto

declare send_parts.simps [simp del]

text \<open>The body of the \<^verbatim>\<open>with\<close> block of \<^verbatim>\<open>split_and_send_zip\<close> (lines 169 to 202).\<close>

definition split_in_temp_dir :: "env \<Rightarrow> path \<Rightarrow> bool \<Rightarrow> string \<Rightarrow> path \<Rightarrow> state \<Rightarrow> ((exn + bool) \<times> state) option" where
  "split_in_temp_dir E file_path skip_zip base_name temp_dir s =
     (case create_zip_archive E file_path base_name temp_dir skip_zip s of
        (Inl e, s1) \<Rightarrow> Some (Inl e, s1)
      | (Inr zip_path, s1) \<Rightarrow>
          (let chunk_size = MAX_FILE_SIZE (cfg E)
           in case getsize s1 zip_path of
                Inl e \<Rightarrow> Some (Inl e, s1)
              | Inr zip_size \<Rightarrow>
                 (case count_parts zip_size chunk_size of
                    Inl e \<Rightarrow> Some (Inl e, s1)
                  | Inr total_parts \<Rightarrow>
                     (case read_file s1 zip_path of
                        Inl e \<Rightarrow> Some (Inl e, s1)
                      | Inr content \<Rightarrow>
                         (case send_parts E temp_dir base_name chunk_size total_parts content 1 s1 of
                            None \<Rightarrow> None
                          | Some (Inl e, s2) \<Rightarrow> Some (Inl e, s2)
                          | Some (Inr (success, file_number), s2) \<Rightarrow>
                              if \<not> success then Some (Inr False, s2)
                              else
                                (case send_reassembly_instructions E base_name file_number s2 of
                                   (Inl e, s3) \<Rightarrow> Some (Inl e, s3)
                                 | (Inr u, s3) \<Rightarrow>
                                     if \<not> skip_zip \<and> COMPRESSION_LEVEL (cfg E) \<noteq> ''none''
                                        \<and> \<not> endswith (lower file_path) ''.zip''
                                     then (case remove zip_path s3 of
                                             Inl e \<Rightarrow> Some (Inl e, s3)
                                           | Inr s4 \<Rightarrow> Some (Inr True, s4))
                                     else Some (Inr True, s3)))))))"

text \<open>
  The handler of \<^verbatim>\<open>split_and_send_zip\<close> (lines 203 to 206): the generic notice, then
  the result \<^verbatim>\<open>(False, 0)\<close>. A \<^verbatim>\<open>TelegramError\<close> of \<^verbatim>\<open>bot.send_message\<close> is raised
  inside the handler and leaves the function.
\<close>

definition split_failed :: "env \<Rightarrow> string \<Rightarrow> state \<Rightarrow> (exn + bool \<times> nat) \<times> state" where
  "split_failed E base_name s =
     (case send_error_message E base_name s of
        (Inl e, s1) \<Rightarrow> (Inl e, s1)
      | (Inr u, s1) \<Rightarrow> (Inr (False, 0), s1))"

text \<open>
  \<^verbatim>\<open>split_and_send_zip\<close> (lines 162 to 206). Every exception raised in the body is
  caught at line 203; the temporary directory is gone by then.
\<close>

definition split_and_send_zip :: "env \<Rightarrow> path \<Rightarrow> bool \<Rightarrow> state \<Rightarrow> ((exn + bool \<times> nat) \<times> state) option" where
  "split_and_send_zip E file_path skip_zip s =
     (let base_name = basename file_path
      in case getsize s file_path of
           Inl e \<Rightarrow> Some (split_failed E base_name s)
         | Inr original_size \<Rightarrow>
            (let (temp_dir, s1) = mkdtemp s
             in case split_in_temp_dir E file_path skip_zip base_name temp_dir s1 of
                  None \<Rightarrow> None
                | Some (Inl e, s2) \<Rightarrow> Some (split_failed E base_name (cleanup temp_dir s2))
                | Some (Inr success, s2) \<Rightarrow>
                    if success then Some (Inr (True, original_size), cleanup temp_dir s2)
                    else Some (Inr (False, 0), cleanup temp_dir s2)))"

subsection \<open>Processing one file\<close>

text \<open>\<^verbatim>\<open>save_data(file_history, FILE_HISTORY_PATH)\<close> (line 339).\<close>

definition save_data :: "state \<Rightarrow> state" where
  "save_data s = s\<lparr>saved_history := file_history s\<rparr>"

text \<open>
  \<^verbatim>\<open>send_event_to_backend\<close> (lines 253 to 271); it never raises and changes nothing
  the pipeline reads.
\<close>

definition send_event_to_backend :: "string \<Rightarrow> string \<Rightarrow> int \<Rightarrow> string \<Rightarrow> nat \<Rightarrow> state \<Rightarrow> state" where
  "send_event_to_backend type file_name fid file_hash fsize s =
     s\<lparr>backend_events := backend_events s @
         [\<lparr>event_type = type, event_file = file_name, event_file_id = fid,
           event_hash = file_hash, event_file_size = fsize\<rparr>]\<rparr>"

text \<open>Line 282: some record of the history has the computed hash.\<close>

definition hash_in_history :: "(path \<times> file_data) list \<Rightarrow> string \<Rightarrow> bool" where
  "hash_in_history history file_hash = list_ex (\<lambda>file_data. hash file_data = file_hash) (map snd history)"

text \<open>Line 286: there is a filter and the name ends with none of its extensions.\<close>

definition extension_not_allowed :: "env \<Rightarrow> string \<Rightarrow> bool" where
  "extension_not_allowed E base_name =
     (ALLOWED_EXTENSIONS (cfg E) \<noteq> []
      \<and> \<not> list_ex (\<lambda>ext. endswith (lower base_name) ext) (ALLOWED_EXTENSIONS (cfg E)))"

text \<open>Line 305: the path has no record, or its record has another hash.\<close>

definition new_or_modified :: "(path \<times> file_data) list \<Rightarrow> path \<Rightarrow> string \<Rightarrow> bool" where
  "new_or_modified history file_path file_hash =
     (case map_of history file_path of
        None \<Rightarrow> True
      | Some file_data \<Rightarrow> hash file_data \<noteq> file_hash)"

text \<open>Lines 291 to 303: the artifact to send.\<close>

definition build_artifact :: "env \<Rightarrow> path \<Rightarrow> string \<Rightarrow> path \<Rightarrow> state \<Rightarrow> (exn + path) \<times> state" where
  "build_artifact E file_path base_name temp_dir s =
     (if COMPRESSION_LEVEL (cfg E) = ''none''
         \<or> (endswith (lower file_path) ''.zip'' \<and> \<not> ENABLE_ENCRYPTION (cfg E))
      then (Inr file_path, s)
      else let send_path = join temp_dir (base_name @ ''.zip'')
           in case write_archive E file_path base_name send_path s of
                Inl e \<Rightarrow> (Inl e, s)
              | Inr s1 \<Rightarrow> (Inr send_path, s1))"

text \<open>Lines 316 and 317; the two padlocks are written as their UTF-8 bytes.\<close>

definition single_caption :: "env \<Rightarrow> string \<Rightarrow> string" where
  "single_caption E base_name =
     (let encryption_status =
            (if ENABLE_ENCRYPTION (cfg E)
             then [CHR 0xF0, CHR 0x9F, CHR 0x94, CHR 0x92] @ '' Encrypted''
             else [CHR 0xF0, CHR 0x9F, CHR 0x94, CHR 0x93] @ '' Not encrypted'')
      in ''File: '' @ base_name @ [CHR 0x0A] @ encryption_status)"

text \<open>Lines 308 to 319: the delivery, split or single, with \<open>(success, file_size)\<close>.\<close>

definition deliver :: "env \<Rightarrow> path \<Rightarrow> string \<Rightarrow> state \<Rightarrow> ((exn + bool \<times> nat) \<times> state) option" where
  "deliver E send_path base_name s =
     (case getsize s send_path of
        Inl e \<Rightarrow> Some (Inl e, s)
      | Inr artifact_size \<Rightarrow>
          if artifact_size > MAX_FILE_SIZE (cfg E)
          then (if endswith (lower send_path) ''.zip''
                then split_and_send_zip E send_path True s
                else split_and_send_zip E send_path False s)
          else (case send_file E send_path (single_caption E base_name) None None 0 s of
                  None \<Rightarrow> None
                | Some (Inl e, s1) \<Rightarrow> Some (Inl e, s1)
                | Some (Inr success, s1) \<Rightarrow>
                    (case getsize s1 send_path of
                       Inl e \<Rightarrow> Some (Inl e, s1)
                     | Inr sent_size \<Rightarrow> Some (Inr (success, sent_size), s1))))"

text \<open>Lines 322 to 341: the record of a successful delivery.\<close>

definition record_success :: "env \<Rightarrow> path \<Rightarrow> string \<Rightarrow> nat \<Rightarrow> string \<Rightarrow> nat \<Rightarrow> state \<Rightarrow> state" where
  "record_success E file_path file_hash original_size base_name sent_size s =
     (let s1 = s\<lparr>file_counter := file_counter s + 1\<rparr>;
          encryption_algorithm = (if ENABLE_ENCRYPTION (cfg E) then ''AES'' else ''None'');
          s2 = s1\<lparr>file_history := AList.update file_path
                     \<lparr>hash = file_hash, send_success = True,
                      encrypted = ENABLE_ENCRYPTION (cfg E),
                      encryption_algorithm = encryption_algorithm,
                      file_id = file_counter s1, file_size = original_size,
                      processed_size = sent_size\<rparr>
                     (file_history s1)\<rparr>
      in send_event_to_backend ''success'' base_name (file_counter s2) file_hash original_size
           (save_data s2))"

text \<open>Lines 291 to 344: the body of the \<^verbatim>\<open>with\<close> block of \<^verbatim>\<open>process_file\<close>.\<close>

definition process_in_temp_dir ::
  "env \<Rightarrow> path \<Rightarrow> string \<Rightarrow> nat \<Rightarrow> string \<Rightarrow> path \<Rightarrow> state \<Rightarrow> ((exn + unit) \<times> state) option" where
  "process_in_temp_dir E file_path file_hash original_size base_name temp_dir s =
     (case build_artifact E file_path base_name temp_dir s of
        (Inl e, s1) \<Rightarrow> Some (Inl e, s1)
      | (Inr send_path, s1) \<Rightarrow>
          if new_or_modified (file_history s1) file_path file_hash
          then (case deliver E send_path base_name s1 of
                  None \<Rightarrow> None
                | Some (Inl e, s2) \<Rightarrow> Some (Inl e, s2)
                | Some (Inr (success, sent_size), s2) \<Rightarrow>
                    if success
                    then Some (Inr (), record_success E file_path file_hash original_size base_name sent_size s2)
                    else Some (Inr (), send_event_to_backend ''failure'' base_name (file_counter s2)
                                         file_hash original_size s2))
          else Some (Inr (), s1))"

text \<open>\<^verbatim>\<open>process_file\<close> (lines 273 to 344). It has no exception handler of its own.\<close>

definition process_file :: "env \<Rightarrow> path \<Rightarrow> state \<Rightarrow> ((exn + unit) \<times> state) option" where
  "process_file E file_path s =
     (case calculate_md5 E s file_path of
        Inl e \<Rightarrow> Some (Inl e, s)
      | Inr file_hash \<Rightarrow>
         (case getsize s file_path of
            Inl e \<Rightarrow> Some (Inl e, s)
          | Inr original_size \<Rightarrow>
             (let base_name = basename file_path
              in if hash_in_history (file_history s) file_hash then Some (Inr (), s)
                 else if extension_not_allowed E base_name then Some (Inr (), s)
                 else
                   let (temp_dir, s1) = mkdtemp s
                   in case process_in_temp_dir E file_path file_hash original_size base_name temp_dir s1 of
                        None \<Rightarrow> None
                      | Some (r, s2) \<Rightarrow> Some (r, cleanup temp_dir s2))))"

subsection \<open>The scheduling loop\<close>

text \<open>
  Line 376: the counter starts at the \<^verbatim>\<open>file_id\<close> of the first record with the
  greatest \<^verbatim>\<open>file_id\<close>, and at 0 when the history is empty.
\<close>

fun max_by_file_id :: "file_data list \<Rightarrow> file_data option" where
  "max_by_file_id [] = None"
| "max_by_file_id (x # xs) =
     (case max_by_file_id xs of
        None \<Rightarrow> Some x
      | Some y \<Rightarrow> if file_id x \<ge> file_id y then Some x else Some y)"

definition initial_counter :: "(path \<times> file_data) list \<Rightarrow> int" where
  "initial_counter history =
     (case max_by_file_id (map snd history) of None \<Rightarrow> 0 | Some x \<Rightarrow> file_id x)"

text \<open>Lines 375 and 376: the history is read back from where line 339 saves it.\<close>

definition load_history :: "state \<Rightarrow> state" where
  "load_history s =
     s\<lparr>file_history := saved_history s, file_counter := initial_counter (saved_history s)\<rparr>"

text \<open>Lines 406 and 407: an exception of \<^verbatim>\<open>process_file\<close> leaves the \<^verbatim>\<open>for\<close> loop.\<close>

fun process_files :: "env \<Rightarrow> path list \<Rightarrow> state \<Rightarrow> ((exn + unit) \<times> state) option" where
  "process_files E [] s = Some (Inr (), s)"
| "process_files E (file_path # sorted_files) s =
     (case process_file E file_path s of
        None \<Rightarrow> None
      | Some (Inl e, s1) \<Rightarrow> Some (Inl e, s1)
      | Some (Inr u, s1) \<Rightarrow> process_files E sorted_files s1)"

text \<open>
  One turn of the \<^verbatim>\<open>while True\<close> of \<^verbatim>\<open>main\<close> (lines 389 to 416), given the list
  \<open>sorted_files\<close> that the scan of this turn produced. The handler of line 414 and the
  normal end of the \<^verbatim>\<open>try\<close> block both sleep for \<^verbatim>\<open>CHECK_INTERVAL\<close>.
\<close>

definition cycle :: "env \<Rightarrow> path list \<Rightarrow> state \<Rightarrow> state option" where
  "cycle E sorted_files s =
     (case process_files E sorted_files s of
        None \<Rightarrow> None
      | Some (Inl e, s1) \<Rightarrow> Some (s1\<lparr>sleeps := sleeps s1 @ [CHECK_INTERVAL (cfg E)]\<rparr>)
      | Some (Inr u, s1) \<Rightarrow> Some (s1\<lparr>sleeps := sleeps s1 @ [CHECK_INTERVAL (cfg E)]\<rparr>))"

text \<open>\<^verbatim>\<open>main\<close> for as many turns of the loop as there are scans.\<close>

fun cycles :: "env \<Rightarrow> path list list \<Rightarrow> state \<Rightarrow> state option" where
  "cycles E [] s = Some s"
| "cycles E (sorted_files # scans) s =
     (case cycle E sorted_files s of None \<Rightarrow> None | Some s1 \<Rightarrow> cycles E scans s1)"

definition main :: "env \<Rightarrow> path list list \<Rightarrow> state \<Rightarrow> state option" where
  "main E scans s = cycles E scans (load_history s)"

text \<open>The module from its first line: the configuration check, then \<^verbatim>\<open>main\<close>.\<close>

definition bot :: "env \<Rightarrow> path list list \<Rightarrow> state \<Rightarrow> ((exn + unit) \<times> state) option" where
  "bot E scans s =
     (case validate_configuration (cfg E) of
        Inl e \<Rightarrow> Some (Inl e, s)
      | Inr u \<Rightarrow> (case main E scans s of None \<Rightarrow> None | Some s1 \<Rightarrow> Some (Inr (), s1)))"

section \<open>Notions used in the properties\<close>

text \<open>
  An answer of the transport after which \<^verbatim>\<open>send_file\<close> gives up: every error except
  the one with a response of status 429.
\<close>

definition terminal :: "reply \<Rightarrow> bool" where
  "terminal r = (case r of TelegramError \<Rightarrow> True | RetryAfter seconds \<Rightarrow> True | _ \<Rightarrow> False)"

text \<open>
  Calls of \<^verbatim>\<open>send_document\<close>: the answer of one call, the calls that were delivered
  (file, content, caption), a run of calls without terminal error, and a run that ends
  with the first terminal error.
\<close>

type_synonym doc_call = "path \<times> bytes \<times> string \<times> reply"

definition reply_of :: "doc_call \<Rightarrow> reply" where
  "reply_of c = snd (snd (snd c))"

definition delivered :: "doc_call list \<Rightarrow> (path \<times> bytes \<times> string) list" where
  "delivered calls = map (\<lambda>(p, b, cap, r). (p, b, cap)) (filter (\<lambda>c. reply_of c = Delivered) calls)"

definition clean :: "doc_call list \<Rightarrow> bool" where
  "clean calls = list_all (\<lambda>c. \<not> terminal (reply_of c)) calls"

definition failed :: "doc_call list \<Rightarrow> bool" where
  "failed calls = (calls \<noteq> [] \<and> clean (butlast calls) \<and> terminal (reply_of (last calls)))"

text \<open>The blocks that successive reads of \<open>n\<close> bytes return until the end of the file.\<close>

function chunks :: "nat \<Rightarrow> 'a list \<Rightarrow> 'a list list" where
  "chunks n xs = (if take n xs = [] then [] else take n xs # chunks n (drop n xs))"
  by pat_completeness auto
termination
  by (relation "measure (\<lambda>(n, xs). length xs)") auto

declare chunks.simps [simp del]

text \<open>The document that line 188 sends for part \<open>i\<close> with content \<open>chunk\<close>.\<close>

definition part_document :: "path \<Rightarrow> string \<Rightarrow> nat \<Rightarrow> nat \<times> bytes \<Rightarrow> path \<times> bytes \<times> string" where
  "part_document temp_dir base_name total_parts ic =
     (join temp_dir (base_name @ ''.'' @ fmt_03d (fst ic)), snd ic,
      escape_markdown (''Part '' @ str_nat (fst ic) @ '' of '' @ base_name)
        @ part_marker (Some (fst ic)) (Some total_parts))"

text \<open>What \<^verbatim>\<open>split_and_send_zip\<close> splits: the archive it builds, or the file as it is.\<close>

definition split_content :: "env \<Rightarrow> path \<Rightarrow> bool \<Rightarrow> bytes \<Rightarrow> bytes" where
  "split_content E file_path skip_zip content =
     (if \<not> skip_zip \<and> COMPRESSION_LEVEL (cfg E) \<noteq> ''none'' \<and> \<not> endswith (lower file_path) ''.zip''
      then zip_write E (if COMPRESSION_LEVEL (cfg E) = ''default'' then ZIP_DEFLATED else ZIP_STORED)
             (if ENABLE_ENCRYPTION (cfg E) then Some (ZIP_PASSWORD (cfg E)) else None)
             (basename file_path) content
      else content)"

text \<open>What \<^verbatim>\<open>process_file\<close> sends for a file with this content (lines 291 to 303).\<close>

definition artifact :: "env \<Rightarrow> path \<Rightarrow> bytes \<Rightarrow> bytes" where
  "artifact E file_path content =
     (if COMPRESSION_LEVEL (cfg E) = ''none''
         \<or> (endswith (lower file_path) ''.zip'' \<and> \<not> ENABLE_ENCRYPTION (cfg E))
      then content
      else zip_write E (if COMPRESSION_LEVEL (cfg E) = ''default'' then ZIP_DEFLATED else ZIP_STORED)
             (if ENABLE_ENCRYPTION (cfg E) then Some (ZIP_PASSWORD (cfg E)) else None)
             (basename file_path) content)"

text \<open>No record of the history has a \<^verbatim>\<open>file_id\<close> above the counter.\<close>

definition ids_bounded :: "state \<Rightarrow> bool" where
  "ids_bounded s = list_all (\<lambda>file_data. file_id file_data \<le> file_counter s) (map snd (file_history s))"

definition file_ids :: "(path \<times> file_data) list \<Rightarrow> int list" where
  "file_ids history = map (\<lambda>(p, file_data). file_id file_data) history"

text \<open>
  The calls of \<^verbatim>\<open>send_document\<close> made between two states, and the relation between a
  state and a later one in which the calls made before are still the first ones, the
  history in memory and on disk is the same and the counter is not smaller.
\<close>

definition new_calls :: "state \<Rightarrow> state \<Rightarrow> doc_call list" where
  "new_calls s s' = drop (length (documents s)) (documents s')"

definition kept :: "state \<Rightarrow> state \<Rightarrow> bool" where
  "kept s s' \<longleftrightarrow>
     take (length (documents s)) (documents s') = documents s
     \<and> file_history s' = file_history s
     \<and> saved_history s' = saved_history s
     \<and> file_counter s \<le> file_counter s'"

text \<open>
  What a call of \<^verbatim>\<open>send_file\<close> for the file \<open>fp\<close> with the escaped caption \<open>cap\<close> has
  done when it ends with \<open>y\<close>. With the result \<^verbatim>\<open>True\<close> the file was delivered once,
  with this caption. Every other end (\<^verbatim>\<open>False\<close>, or an exception) comes after calls
  without terminal error or right after the first terminal error.
\<close>

definition send_summary :: "path \<Rightarrow> string \<Rightarrow> state \<Rightarrow> (exn + bool) \<times> state \<Rightarrow> bool" where
  "send_summary fp cap s y =
     (kept s (snd y)
      \<and> file_counter (snd y) = file_counter s \<and> files (snd y) = files s
      \<and> temp_dirs (snd y) = temp_dirs s \<and> backend_events (snd y) = backend_events s
      \<and> (if fst y = Inr True
         then (case read_file s fp of
                 Inl e \<Rightarrow> False
               | Inr content \<Rightarrow> delivered (new_calls s (snd y)) = [(fp, content, cap)])
              \<and> clean (new_calls s (snd y))
              \<and> messages (snd y) = messages s
         else clean (new_calls s (snd y)) \<or> failed (new_calls s (snd y))))"

text \<open>What the loop of \<^verbatim>\<open>split_and_send_zip\<close> has done when it ends with \<open>y\<close>.\<close>

definition parts_summary ::
  "path \<Rightarrow> string \<Rightarrow> nat \<Rightarrow> nat \<Rightarrow> bytes \<Rightarrow> nat \<Rightarrow> state \<Rightarrow> (exn + bool \<times> nat) \<times> state \<Rightarrow> bool" where
  "parts_summary temp_dir base_name chunk_size total_parts rest file_number s y =
     (kept s (snd y) \<and>
      (case fst y of
         Inl e \<Rightarrow> clean (new_calls s (snd y)) \<or> failed (new_calls s (snd y))
       | Inr (success, m) \<Rightarrow>
           if success
           then clean (new_calls s (snd y))
                \<and> m = file_number + length (chunks chunk_size rest)
                \<and> delivered (new_calls s (snd y))
                    = map (part_document temp_dir base_name total_parts)
                        (zip [file_number..<m] (chunks chunk_size rest))
                \<and> messages (snd y) = messages s
                \<and> file_counter (snd y) = file_counter s + int (length (chunks chunk_size rest))
           else clean (new_calls s (snd y)) \<or> failed (new_calls s (snd y))))"

text \<open>The documents that a complete split of \<open>content\<close> delivers, in order.\<close>

definition parts_sent :: "path \<Rightarrow> string \<Rightarrow> nat \<Rightarrow> bytes \<Rightarrow> (path \<times> bytes \<times> string) list" where
  "parts_sent temp_dir base_name chunk_size content =
     map (part_document temp_dir base_name (length (chunks chunk_size content)))
       (zip [1..<Suc (length (chunks chunk_size content))] (chunks chunk_size content))"

text \<open>
  Between \<open>s\<close> and \<open>s'\<close> the delivery of the file at \<open>file_path\<close> with this content was
  recorded: the history has the new record under the path, with the value of the
  counter as \<^verbatim>\<open>file_id\<close>, the history on disk is the history in memory, and the
  counter has grown.
\<close>

definition recorded_as :: "env \<Rightarrow> path \<Rightarrow> bytes \<Rightarrow> nat \<Rightarrow> state \<Rightarrow> state \<Rightarrow> bool" where
  "recorded_as E file_path content sent_size s s' \<longleftrightarrow>
     file_history s' =
       AList.update file_path
         \<lparr>hash = md5 E content, send_success = True, encrypted = ENABLE_ENCRYPTION (cfg E),
          encryption_algorithm = (if ENABLE_ENCRYPTION (cfg E) then ''AES'' else ''None''),
          file_id = file_counter s', file_size = length content, processed_size = sent_size\<rparr>
         (file_history s)
     \<and> saved_history s' = file_history s'
     \<and> file_counter s < file_counter s'"

text \<open>
  The calls of \<^verbatim>\<open>send_message\<close> that line 196 makes after the last part when each of
  them goes through, the first one with the message id \<open>m\<close>.
\<close>

definition instructions_sent :: "env \<Rightarrow> string \<Rightarrow> nat \<Rightarrow> nat \<Rightarrow> (int \<times> string \<times> nat option) list" where
  "instructions_sent E base_name file_number m =
     (CHAT_ID (cfg E), reassembly_instructions E base_name file_number, Some m)
     # (if FORWARD_CHAT_ID (cfg E) \<noteq> 0 \<and> ENABLE_FORWARD (cfg E)
        then [(FORWARD_CHAT_ID (cfg E), reassembly_instructions E base_name file_number, Some (m + 1))]
        else [])"

section \<open>Concrete settings, transports and states\<close>

text \<open>
  A configuration with a part size of four bytes, a library whose hash is the length of
  the content and whose archive is the content behind a two-byte header, and a world
  with two small files and one of ten bytes.
\<close>

definition settings0 :: settings where
  "settings0 =
     \<lparr>CHAT_ID = 100, FORWARD_CHAT_ID = 0, ENABLE_FORWARD = False, CHECK_INTERVAL = 60,
      MAX_FILE_SIZE = 4, ENABLE_ENCRYPTION = False, ZIP_PASSWORD = [],
      ALLOWED_EXTENSIONS = [], COMPRESSION_LEVEL = ''none''\<rparr>"

definition env0 :: env where
  "env0 =
     \<lparr>cfg = settings0, md5 = (\<lambda>b. str_nat (length b)),
      zip_write = (\<lambda>c pw name b. [80, 75] @ b),
      send_document = (\<lambda>n. Delivered), may_forward = (\<lambda>m. True),
      send_message = (\<lambda>n. True), delete_message = (\<lambda>n. True), recursion_limit = 1000\<rparr>"

definition state0 :: state where
  "state0 =
     \<lparr>file_history = [], file_counter = 0, error_messages = [],
      files = [(''/data/a.txt'', [1, 2, 3]), (''/data/b.txt'', [4, 5]),
               (''/data/big.bin'', [1, 2, 3, 4, 5, 6, 7, 8, 9, 10])],
      temp_dirs = 0, documents = [], sleeps = [], messages = [], next_message_id = 0,
      deleted = [], forwarded = [], saved_history = [], backend_events = []\<rparr>"

text \<open>The same library and world with encryption switched on and no compression.\<close>

definition env_encrypt_none :: env where
  "env_encrypt_none = env0\<lparr>cfg := settings0\<lparr>ENABLE_ENCRYPTION := True\<rparr>\<rparr>"

text \<open>
  A transport that answers the first call with the flood-control signal of the library,
  five seconds, and delivers afterwards.
\<close>

definition env_flood :: env where
  "env_flood = env0\<lparr>send_document := (\<lambda>n. if n = 0 then RetryAfter 5 else Delivered)\<rparr>"

text \<open>
  The same with an exception of the shape that line 135 tests for: a response of status
  429 whose \<^verbatim>\<open>Retry-After\<close> header reads five.
\<close>

definition env_response_429 :: env where
  "env_response_429 = env0\<lparr>send_document := (\<lambda>n. if n = 0 then FloodControl (Seconds 5) else Delivered)\<rparr>"

text \<open>A world in which a file of three bytes was delivered before, from another path.\<close>

definition old_record :: file_data where
  "old_record =
     \<lparr>hash = ''3'', send_success = True, encrypted = False, encryption_algorithm = ''None'',
      file_id = 7, file_size = 3, processed_size = 3\<rparr>"

definition state_sent :: state where
  "state_sent =
     state0\<lparr>file_history := [(''/data/old.txt'', old_record)], file_counter := 7,
            saved_history := [(''/data/old.txt'', old_record)]\<rparr>"


text \<open>
  The scenario of a file of 100 MiB whose archive has 60 MiB, with the part size of the
  source, 45 MiB, and compression \<^verbatim>\<open>default\<close>.
\<close>

definition env_scenario :: env where
  "env_scenario =
     env0\<lparr>cfg := settings0\<lparr>MAX_FILE_SIZE := MAX_FILE_SIZE_bot, COMPRESSION_LEVEL := ''default''\<rparr>,
          zip_write := (\<lambda>c pw name b. replicate (60 * 1024 * 1024) 80)\<rparr>"

definition state_scenario :: state where
  "state_scenario = state0\<lparr>files := [(''/data/video.mp4'', replicate (100 * 1024 * 1024) 0)]\<rparr>"



section \<open>Properties\<close>

text \<open>What the calls of the transport other than \<^verbatim>\<open>send_document\<close> leave alone.\<close>

lemma bot_send_message_fields:
  assumes "bot_send_message E chat text s = (r, s')"
  shows "documents s' = documents s" "sleeps s' = sleeps s" "file_history s' = file_history s"
    "file_counter s' = file_counter s" "files s' = files s" "temp_dirs s' = temp_dirs s"
    "saved_history s' = saved_history s" "backend_events s' = backend_events s"
    "error_messages s' = error_messages s" "deleted s' = deleted s"
  using assms by (auto simp: bot_send_message_def split: if_splits)

lemma bot_delete_message_fields:
  assumes "bot_delete_message E chat m s = (r, s')"
  shows "documents s' = documents s" "sleeps s' = sleeps s" "file_history s' = file_history s"
    "file_counter s' = file_counter s" "files s' = files s" "temp_dirs s' = temp_dirs s"
    "saved_history s' = saved_history s" "backend_events s' = backend_events s"
    "error_messages s' = error_messages s" "messages s' = messages s"
    "next_message_id s' = next_message_id s"
  using assms by (auto simp: bot_delete_message_def split: if_splits)

lemma after_error_fields:
  assumes "after_error E fp s = (r, s')"
  shows "documents s' = documents s" "sleeps s' = sleeps s" "file_history s' = file_history s"
    "file_counter s' = file_counter s" "files s' = files s" "temp_dirs s' = temp_dirs s"
    "saved_history s' = saved_history s" "backend_events s' = backend_events s"
    "deleted s' = deleted s" "r \<noteq> Inr True"
proof -
  obtain q s1 where b: "bot_send_message E (CHAT_ID (cfg E)) (''Error sending file: '' @ fp @ ''. Check logs.'') s = (q, s1)"
    by (cases "bot_send_message E (CHAT_ID (cfg E)) (''Error sending file: '' @ fp @ ''. Check logs.'') s")
  note f = bot_send_message_fields [OF b]
  from assms b have "(r = Inl TelegramException \<and> s' = s1) \<or>
       (r = Inr False \<and> (\<exists>n. s' = s1\<lparr>error_messages := AList.update fp n (error_messages s1)\<rparr>))"
    by (cases q) (auto simp: after_error_def bot_send_message_def split: if_splits)
  then show "documents s' = documents s" "sleeps s' = sleeps s" "file_history s' = file_history s"
    "file_counter s' = file_counter s" "files s' = files s" "temp_dirs s' = temp_dirs s"
    "saved_history s' = saved_history s" "backend_events s' = backend_events s"
    "deleted s' = deleted s" "r \<noteq> Inr True"
    using f by auto
qed

lemma after_delivery_fields:
  assumes "after_delivery E fp s = (r, s')"
  shows "documents s' = documents s" "sleeps s' = sleeps s" "file_history s' = file_history s"
    "file_counter s' = file_counter s" "files s' = files s" "temp_dirs s' = temp_dirs s"
    "saved_history s' = saved_history s" "backend_events s' = backend_events s"
    "messages s' = messages s" "r \<noteq> Inr False"
proof -
  define s2 where "s2 = (if ENABLE_FORWARD (cfg E)
      then forward_message E (next_message_id s) (s\<lparr>next_message_id := next_message_id s + 1\<rparr>)
      else s\<lparr>next_message_id := next_message_id s + 1\<rparr>)"
  have f2: "documents s2 = documents s" "sleeps s2 = sleeps s" "file_history s2 = file_history s"
    "file_counter s2 = file_counter s" "files s2 = files s" "temp_dirs s2 = temp_dirs s"
    "saved_history s2 = saved_history s" "backend_events s2 = backend_events s"
    "messages s2 = messages s"
    by (simp_all add: s2_def forward_message_def)
  note def = after_delivery_def [of E fp s, unfolded Let_def, folded s2_def]
  have "documents s' = documents s \<and> sleeps s' = sleeps s \<and> file_history s' = file_history s
    \<and> file_counter s' = file_counter s \<and> files s' = files s \<and> temp_dirs s' = temp_dirs s
    \<and> saved_history s' = saved_history s \<and> backend_events s' = backend_events s
    \<and> messages s' = messages s \<and> r \<noteq> Inr False"
  proof (cases "map_of (error_messages s2) fp")
    case None
    with assms have "r = Inr True" "s' = s2" by (simp_all add: def)
    then show ?thesis using f2 by simp
  next
    case (Some notice)
    obtain q s3 where d: "bot_delete_message E (CHAT_ID (cfg E)) notice s2 = (q, s3)"
      by (cases "bot_delete_message E (CHAT_ID (cfg E)) notice s2")
    note f3 = bot_delete_message_fields [OF d]
    from assms Some d have "(r = Inl TelegramException \<and> s' = s3) \<or>
       (r = Inr True \<and> s' = s3\<lparr>error_messages := AList.delete fp (error_messages s3)\<rparr>)"
      by (cases q) (auto simp: def bot_delete_message_def split: if_splits)
    then show ?thesis using f2 f3 by auto
  qed
  then show "documents s' = documents s" "sleeps s' = sleeps s" "file_history s' = file_history s"
    "file_counter s' = file_counter s" "files s' = files s" "temp_dirs s' = temp_dirs s"
    "saved_history s' = saved_history s" "backend_events s' = backend_events s"
    "messages s' = messages s" "r \<noteq> Inr False"
    by simp_all
qed

text \<open>The two checks of \<^verbatim>\<open>process_file\<close> against the history.\<close>

lemma hash_in_history_iff:
  "hash_in_history history file_hash \<longleftrightarrow> (\<exists>(p, file_data) \<in> set history. hash file_data = file_hash)"
  by (force simp: hash_in_history_def list_ex_iff)

lemma build_artifact_file_history:
  "build_artifact E file_path base_name temp_dir s = (r, s1) \<Longrightarrow> file_history s1 = file_history s"
  by (auto simp: build_artifact_def write_archive_def write_file_def Let_def
      split: if_splits sum.splits)

text \<open>Fields of the state that the helpers of the pipeline leave alone.\<close>

lemma write_file_fields [simp]:
  "documents (write_file p b s) = documents s"
  "file_history (write_file p b s) = file_history s"
  "saved_history (write_file p b s) = saved_history s"
  "file_counter (write_file p b s) = file_counter s"
  "messages (write_file p b s) = messages s"
  "temp_dirs (write_file p b s) = temp_dirs s"
  "files (write_file p b s) = AList.update p b (files s)"
  by (simp_all add: write_file_def)

lemma cleanup_fields [simp]:
  "documents (cleanup d s) = documents s"
  "file_history (cleanup d s) = file_history s"
  "saved_history (cleanup d s) = saved_history s"
  "file_counter (cleanup d s) = file_counter s"
  "messages (cleanup d s) = messages s"
  "temp_dirs (cleanup d s) = temp_dirs s"
  by (simp_all add: cleanup_def)

lemma mkdtemp_fields [simp]:
  "fst (mkdtemp s) = tempdir_name (temp_dirs s)"
  "documents (snd (mkdtemp s)) = documents s"
  "file_history (snd (mkdtemp s)) = file_history s"
  "saved_history (snd (mkdtemp s)) = saved_history s"
  "file_counter (snd (mkdtemp s)) = file_counter s"
  "messages (snd (mkdtemp s)) = messages s"
  "files (snd (mkdtemp s)) = files s"
  by (simp_all add: mkdtemp_def)

lemma send_error_message_fields:
  assumes "send_error_message E b s = (r, s')"
  shows "documents s' = documents s" "file_history s' = file_history s"
    "saved_history s' = saved_history s" "file_counter s' = file_counter s"
    "files s' = files s" "temp_dirs s' = temp_dirs s"
  using assms
  by (auto simp: send_error_message_def bot_send_message_def split: if_splits)

lemma split_failed_fields:
  assumes "split_failed E b s = (r, s')"
  shows "documents s' = documents s" "file_history s' = file_history s"
    "saved_history s' = saved_history s" "file_counter s' = file_counter s"
    "files s' = files s" "temp_dirs s' = temp_dirs s"
    "\<forall>n. r \<noteq> Inr (True, n)"
  using assms
  by (auto simp: split_failed_def send_error_message_def bot_send_message_def split: if_splits)

lemma send_reassembly_instructions_fields:
  assumes "send_reassembly_instructions E b n s = (r, s')"
  shows "documents s' = documents s" "file_history s' = file_history s"
    "saved_history s' = saved_history s" "file_counter s' = file_counter s"
    "files s' = files s" "temp_dirs s' = temp_dirs s"
  using assms
  by (auto simp: send_reassembly_instructions_def bot_send_message_def Let_def split: if_splits)

lemma send_event_to_backend_fields [simp]:
  "documents (send_event_to_backend t f i h z s) = documents s"
  "file_history (send_event_to_backend t f i h z s) = file_history s"
  "saved_history (send_event_to_backend t f i h z s) = saved_history s"
  "file_counter (send_event_to_backend t f i h z s) = file_counter s"
  by (simp_all add: send_event_to_backend_def)

lemma remove_fields:
  assumes "remove p s = Inr s'"
  shows "documents s' = documents s" "file_history s' = file_history s"
    "saved_history s' = saved_history s" "file_counter s' = file_counter s"
  using assms by (auto simp: remove_def split: option.splits)

lemma read_file_write_file [simp]: "read_file (write_file p b s) p = Inr b"
  by (simp add: read_file_def update_conv')

lemma read_file_cong: "files s' = files s \<Longrightarrow> read_file s' p = read_file s p"
  by (simp add: read_file_def)

lemma getsize_cong: "files s' = files s \<Longrightarrow> getsize s' p = getsize s p"
  by (simp add: getsize_def)

lemma getsize_read_file: "getsize s p = Inr n \<longleftrightarrow> (\<exists>b. read_file s p = Inr b \<and> n = length b)"
  by (auto simp: getsize_def read_file_def split: option.splits)

text \<open>Runs of calls.\<close>

lemma clean_simps [simp]:
  "clean []"
  "clean (c # cs) \<longleftrightarrow> \<not> terminal (reply_of c) \<and> clean cs"
  "clean (xs @ ys) \<longleftrightarrow> clean xs \<and> clean ys"
  by (simp_all add: clean_def)

lemma delivered_simps [simp]:
  "delivered [] = []"
  "delivered ((p, b, cap, r) # cs) = (if r = Delivered then (p, b, cap) # delivered cs else delivered cs)"
  "delivered (xs @ ys) = delivered xs @ delivered ys"
  by (simp_all add: delivered_def reply_of_def)

lemma reply_of_simp [simp]: "reply_of (p, b, cap, r) = r"
  by (simp add: reply_of_def)

lemma terminal_simps [simp]:
  "\<not> terminal Delivered" "\<not> terminal (FloodControl h)" "terminal (RetryAfter n)" "terminal TelegramError"
  by (simp_all add: terminal_def)

lemma failed_snoc: "clean xs \<Longrightarrow> terminal (reply_of c) \<Longrightarrow> failed (xs @ [c])"
  by (simp add: failed_def)

lemma failed_Cons: "\<not> terminal (reply_of c) \<Longrightarrow> failed ys \<Longrightarrow> failed (c # ys)"
  by (cases ys) (auto simp: failed_def)

lemma failed_append: "clean xs \<Longrightarrow> failed ys \<Longrightarrow> failed (xs @ ys)"
  by (auto simp: failed_def butlast_append)

lemma failed_not_clean: "failed xs \<Longrightarrow> \<not> clean xs"
proof
  assume f: "failed xs" and c: "clean xs"
  from f have "xs \<noteq> []" "terminal (reply_of (last xs))" by (simp_all add: failed_def)
  moreover from this(1) have "last xs \<in> set xs" by simp
  ultimately show False using c by (auto simp: clean_def list_all_iff)
qed

text \<open>The relation between a state and a later one.\<close>

lemma kept_refl [simp]: "kept s s"
  by (simp add: kept_def)

lemma kept_trans: "kept s s1 \<Longrightarrow> kept s1 s2 \<Longrightarrow> kept s s2"
proof -
  assume a: "kept s s1" and b: "kept s1 s2"
  from a have "length (take (length (documents s)) (documents s1)) = length (documents s)"
    by (simp add: kept_def)
  then have "length (documents s) \<le> length (documents s1)"
    by simp
  then have "take (length (documents s)) (documents s2)
             = take (length (documents s)) (take (length (documents s1)) (documents s2))"
    by (simp add: min_def)
  with a b show ?thesis by (simp add: kept_def)
qed

lemma new_calls_refl [simp]: "new_calls s s = []"
  by (simp add: new_calls_def)

lemma new_calls_trans:
  assumes "kept s s1" "kept s1 s2"
  shows "new_calls s s2 = new_calls s s1 @ new_calls s1 s2"
proof -
  define a where "a = drop (length (documents s)) (documents s1)"
  define b where "b = drop (length (documents s1)) (documents s2)"
  have a: "documents s1 = documents s @ a"
    using assms(1) append_take_drop_id [of "length (documents s)" "documents s1"]
    by (simp add: kept_def a_def)
  have b: "documents s2 = documents s1 @ b"
    using assms(2) append_take_drop_id [of "length (documents s1)" "documents s2"]
    by (simp add: kept_def b_def)
  show ?thesis by (simp add: new_calls_def a b)
qed

lemma kept_same:
  assumes "documents s' = documents s" "file_history s' = file_history s"
    "saved_history s' = saved_history s" "file_counter s \<le> file_counter s'"
  shows "kept s s'"
  using assms by (simp add: kept_def)

lemma kept_step:
  assumes "kept s s1" "documents s' = documents s1" "file_history s' = file_history s1"
    "saved_history s' = saved_history s1" "file_counter s1 \<le> file_counter s'"
  shows "kept s s'" "new_calls s s' = new_calls s s1"
  using assms by (simp_all add: kept_def new_calls_def)

lemma kept_start:
  assumes "kept s1 s'" "documents s1 = documents s" "file_history s1 = file_history s"
    "saved_history s1 = saved_history s" "file_counter s \<le> file_counter s1"
  shows "kept s s'" "new_calls s s' = new_calls s1 s'"
  using assms by (simp_all add: kept_def new_calls_def)

text \<open>What a finished call of \<^verbatim>\<open>send_file\<close> has done.\<close>

lemma send_summary_none:
  assumes "q \<noteq> Inr True"
  shows "send_summary fp cap s (q, s)"
  using assms by (simp add: send_summary_def)

lemma send_summary_one:
  assumes "read_file s fp = Inr content"
    and "documents s' = documents s @ [(fp, content, cap, r)]"
    and "file_history s' = file_history s" "saved_history s' = saved_history s"
    and "file_counter s' = file_counter s" "files s' = files s" "temp_dirs s' = temp_dirs s"
    and "backend_events s' = backend_events s"
    and "q = Inr True \<longrightarrow> r = Delivered \<and> messages s' = messages s"
  shows "send_summary fp cap s (q, s')"
proof -
  have k: "kept s s'" using assms by (simp add: kept_def)
  have n: "new_calls s s' = [(fp, content, cap, r)]" using assms(2) by (simp add: new_calls_def)
  have f: "failed [(fp, content, cap, r)]" if "terminal r"
    using that by (simp add: failed_def)
  show ?thesis
  proof (cases "q = Inr True")
    case True
    with assms(9) have "r = Delivered" "messages s' = messages s" by simp_all
    with True k n assms show ?thesis by (simp add: send_summary_def)
  next
    case False
    have "clean (new_calls s s') \<or> failed (new_calls s s')"
      unfolding n using f by (cases "terminal r") simp_all
    with False k assms show ?thesis by (simp add: send_summary_def)
  qed
qed

lemma send_summary_flood:
  assumes "read_file s fp = Inr content"
    and "send_summary fp cap
           (s\<lparr>documents := documents s @ [(fp, content, cap, FloodControl h)], sleeps := sleeps s @ [d]\<rparr>) y"
  shows "send_summary fp cap s y"
proof -
  define s1 where "s1 = s\<lparr>documents := documents s @ [(fp, content, cap, FloodControl h)], sleeps := sleeps s @ [d]\<rparr>"
  note a = assms(2) [folded s1_def, unfolded send_summary_def]
  have k1: "kept s s1" by (simp add: kept_def s1_def)
  have n1: "new_calls s s1 = [(fp, content, cap, FloodControl h)]" by (simp add: new_calls_def s1_def)
  have k12: "kept s1 (snd y)" using a by simp
  have k: "kept s (snd y)" by (rule kept_trans [OF k1 k12])
  have n: "new_calls s (snd y) = (fp, content, cap, FloodControl h) # new_calls s1 (snd y)"
    using new_calls_trans [OF k1 k12] by (simp add: n1)
  have r1: "read_file s1 fp = Inr content" using assms(1) by (simp add: read_file_def s1_def)
  have fr: "file_counter s1 = file_counter s" "files s1 = files s" "temp_dirs s1 = temp_dirs s"
    "backend_events s1 = backend_events s" "messages s1 = messages s"
    by (simp_all add: s1_def)
  show ?thesis
  proof (cases "fst y = Inr True")
    case True
    with a r1 have "delivered (new_calls s1 (snd y)) = [(fp, content, cap)]"
      "clean (new_calls s1 (snd y))" "messages (snd y) = messages s1"
      by simp_all
    with True k a fr assms(1) show ?thesis by (simp add: send_summary_def n)
  next
    case False
    with a have "clean (new_calls s1 (snd y)) \<or> failed (new_calls s1 (snd y))" by simp
    then have "clean (new_calls s (snd y)) \<or> failed (new_calls s (snd y))"
      unfolding n by (auto intro: failed_Cons)
    with False k a fr show ?thesis by (simp add: send_summary_def)
  qed
qed

lemma send_file_cases:
  assumes "send_file E fp cap pn tp nested s = Some y"
  shows "send_summary fp (escape_markdown cap @ part_marker pn tp) s y"
proof (rule send_file.raw_induct
    [where P = "\<lambda>E fp cap pn tp nested s y. send_summary fp (escape_markdown cap @ part_marker pn tp) s y",
     OF _ assms], goal_cases)
  case (1 f E fp cap pn tp nested s y)
  let ?c = "escape_markdown cap @ part_marker pn tp"
  show ?case
  proof (cases "recursion_limit E \<le> nested")
    case True
    with 1(2) have "y = (Inl RecursionError, s)" by simp
    then show ?thesis by (simp add: send_summary_none)
  next
    case deep: False
    show ?thesis
    proof (cases "read_file s fp")
      case (Inl e)
      with 1(2) deep have "y = (Inl e, s)" by simp
      then show ?thesis by (simp add: send_summary_none)
    next
      case (Inr content)
      define r where "r = send_document E (length (documents s))"
      define s1 where "s1 = s\<lparr>documents := documents s @ [(fp, content, ?c, r)]\<rparr>"
      have f1: "documents s1 = documents s @ [(fp, content, ?c, r)]"
        "file_history s1 = file_history s" "saved_history s1 = saved_history s"
        "file_counter s1 = file_counter s" "files s1 = files s" "temp_dirs s1 = temp_dirs s"
        "backend_events s1 = backend_events s" "messages s1 = messages s"
        by (simp_all add: s1_def)
      have sd: "send_document E (length (documents s)) = r" by (simp add: r_def)
      have s1r: "s\<lparr>documents := documents s @ [(fp, content, ?c, x)]\<rparr> = s1" if "r = x" for x
        using that by (simp add: s1_def)
      have error: "send_summary fp ?c s (after_error E fp s1)"
      proof -
        obtain q s2 where ae: "after_error E fp s1 = (q, s2)" by (cases "after_error E fp s1")
        note f2 = after_error_fields [OF ae]
        show ?thesis unfolding ae
          by (rule send_summary_one [OF Inr, where r = r]) (simp_all add: f1 f2)
      qed
      show ?thesis
      proof (cases r)
        case Delivered
        obtain q s2 where ad: "after_delivery E fp s1 = (q, s2)" by (cases "after_delivery E fp s1")
        note f2 = after_delivery_fields [OF ad]
        show ?thesis
        proof (cases q)
          case (Inl e)
          obtain q3 s3 where ae: "after_error E fp s2 = (q3, s3)" by (cases "after_error E fp s2")
          note f3 = after_error_fields [OF ae]
          from 1(2) deep Inr ad Inl ae have y: "y = (q3, s3)"
            by (simp add: Let_def sd [unfolded Delivered] s1r [OF Delivered])
          show ?thesis unfolding y
            by (rule send_summary_one [OF Inr, where r = r]) (simp_all add: f1 f2 f3)
        next
          case (Inr b)
          from 1(2) deep \<open>read_file s fp = Inr content\<close> ad Inr have y: "y = (Inr b, s2)"
            by (simp add: Let_def sd [unfolded Delivered] s1r [OF Delivered])
          show ?thesis unfolding y
            by (rule send_summary_one [OF \<open>read_file s fp = Inr content\<close>, where r = r])
               (simp_all add: f1 f2 Delivered)
        qed
      next
        case (RetryAfter n)
        from 1(2) deep Inr have "y = after_error E fp s1"
          by (simp add: Let_def sd [unfolded RetryAfter] s1r [OF RetryAfter])
        with error show ?thesis by simp
      next
        case TelegramError
        from 1(2) deep Inr have "y = after_error E fp s1"
          by (simp add: Let_def sd [unfolded TelegramError] s1r [OF TelegramError])
        with error show ?thesis by simp
      next
        case (FloodControl h)
        show ?thesis
        proof (cases "retry_after h")
          case (Inl e)
          with 1(2) deep \<open>read_file s fp = Inr content\<close> have y: "y = (Inl e, s1)"
            by (simp add: Let_def sd [unfolded FloodControl] s1r [OF FloodControl])
          show ?thesis unfolding y
            by (rule send_summary_one [OF \<open>read_file s fp = Inr content\<close>, where r = r]) (simp_all add: f1)
        next
          case (Inr seconds)
          let ?s2 = "s\<lparr>documents := documents s @ [(fp, content, ?c, FloodControl h)],
                        sleeps := sleeps s @ [nat seconds]\<rparr>"
          from 1(2) deep \<open>read_file s fp = Inr content\<close> Inr
          have rec: "f E fp cap pn tp (nested + 1) ?s2 = Some y"
            by (simp add: Let_def sd [unfolded FloodControl])
          from 1(1) [OF rec] show ?thesis
            by (rule send_summary_flood [OF \<open>read_file s fp = Inr content\<close>])
        qed
      qed
    qed
  qed
qed

lemma send_file_kept:
  assumes "send_file E fp cap pn tp nested s = Some (r, s')"
  shows "kept s s'" "file_counter s' = file_counter s" "files s' = files s"
    "temp_dirs s' = temp_dirs s" "backend_events s' = backend_events s"
  using send_file_cases [OF assms] by (simp_all add: send_summary_def)

lemma send_file_True:
  assumes "send_file E fp cap pn tp nested s = Some (Inr True, s')"
  shows "\<exists>content. read_file s fp = Inr content
           \<and> delivered (new_calls s s') = [(fp, content, escape_markdown cap @ part_marker pn tp)]"
    and "clean (new_calls s s')" and "messages s' = messages s"
  using send_file_cases [OF assms] by (auto simp: send_summary_def split: sum.splits)

lemma send_file_not_True:
  assumes "send_file E fp cap pn tp nested s = Some (r, s')" and "r \<noteq> Inr True"
  shows "clean (new_calls s s') \<or> failed (new_calls s s')"
  using send_file_cases [OF assms(1)] assms(2) by (simp add: send_summary_def)

text \<open>\<^verbatim>\<open>send_file\<close> returns: the interpreter bounds the calls inside one another.\<close>

lemma send_file_returns: "\<exists>y. send_file E fp cap pn tp nested s = Some y"
proof (induction "recursion_limit E - nested" arbitrary: nested s)
  case 0
  then show ?case by (subst send_file.simps) simp
next
  case (Suc k)
  then have deep: "\<not> recursion_limit E \<le> nested" and k: "k = recursion_limit E - (nested + 1)"
    by simp_all
  show ?case
  proof (cases "read_file s fp")
    case (Inl e)
    with deep show ?thesis by (subst send_file.simps) simp
  next
    case (Inr content)
    show ?thesis
    proof (cases "send_document E (length (documents s))")
      case Delivered
      with deep Inr show ?thesis
        by (subst send_file.simps) (simp add: Let_def split: prod.split sum.split)
    next
      case (RetryAfter n)
      with deep Inr show ?thesis by (subst send_file.simps) (simp add: Let_def)
    next
      case TelegramError
      with deep Inr show ?thesis by (subst send_file.simps) (simp add: Let_def)
    next
      case (FloodControl h)
      show ?thesis
      proof (cases "retry_after h")
        case (Inl e)
        with deep \<open>read_file s fp = Inr content\<close> FloodControl show ?thesis
          by (subst send_file.simps) (simp add: Let_def)
      next
        case (Inr seconds)
        from Suc.hyps(1) [OF k] obtain y where
          "send_file E fp cap pn tp (nested + 1)
             (s\<lparr>documents := documents s @ [(fp, content, escape_markdown cap @ part_marker pn tp, FloodControl h)],
                sleeps := sleeps s @ [nat seconds]\<rparr>) = Some y"
          by blast
        with deep \<open>read_file s fp = Inr content\<close> FloodControl Inr show ?thesis
          by (subst send_file.simps) (simp add: Let_def)
      qed
    qed
  qed
qed

text \<open>The loop over the parts, by induction on what is left to read.\<close>

lemma chunks_Nil: "take n xs = [] \<Longrightarrow> chunks n xs = []"
  by (subst chunks.simps) simp

lemma chunks_Cons: "take n xs \<noteq> [] \<Longrightarrow> chunks n xs = take n xs # chunks n (drop n xs)"
  by (subst chunks.simps) simp

lemma send_parts_unfold:
  "send_parts E td bn cs tp rest n s =
     (if take cs rest = [] then Some (Inr (True, n), s)
      else case send_file E (join td (bn @ ''.'' @ fmt_03d n)) (''Part '' @ str_nat n @ '' of '' @ bn)
                  (Some n) (Some tp) 0 (write_file (join td (bn @ ''.'' @ fmt_03d n)) (take cs rest) s) of
             None \<Rightarrow> None
           | Some (Inl e, s2) \<Rightarrow> Some (Inl e, s2)
           | Some (Inr success, s2) \<Rightarrow>
               if \<not> success then Some (Inr (False, n), s2)
               else send_parts E td bn cs tp (drop cs rest) (n + 1)
                      (s2\<lparr>file_counter := file_counter s2 + 1\<rparr>))"
  by (subst send_parts.simps) (simp add: Let_def)

lemma send_parts_summary:
  assumes "send_parts E td bn cs tp rest n s = Some y"
  shows "parts_summary td bn cs tp rest n s y"
  using assms
proof (induction "length rest" arbitrary: rest n s rule: less_induct)
  case less
  define name where "name = join td (bn @ ''.'' @ fmt_03d n)"
  define cap where "cap = ''Part '' @ str_nat n @ '' of '' @ bn"
  define s1 where "s1 = write_file name (take cs rest) s"
  note unfold = send_parts_unfold [of E td bn cs tp rest n s, folded name_def cap_def, folded s1_def]
  show ?case
  proof (cases "take cs rest = []")
    case True
    with less.prems have "y = (Inr (True, n), s)"
      by (simp add: unfold)
    then show ?thesis
      by (simp add: parts_summary_def chunks_Nil [OF True])
  next
    case False
    note ne = this
    have k1: "kept s s1" by (rule kept_same) (simp_all add: s1_def)
    obtain r s2 where sf: "send_file E name cap (Some n) (Some tp) 0 s1 = Some (r, s2)"
      using less.prems False by (auto simp: unfold split: option.splits)
    have k12: "kept s1 s2" by (rule send_file_kept(1) [OF sf])
    have k2: "kept s s2" and n2: "new_calls s s2 = new_calls s1 s2"
      by (rule kept_start [OF k12]; simp add: s1_def)+
    show ?thesis
    proof (cases r)
      case (Inl e)
      with less.prems False sf have y: "y = (Inl e, s2)"
        by (simp add: unfold)
      from send_file_not_True [OF sf] Inl
      have "clean (new_calls s1 s2) \<or> failed (new_calls s1 s2)" by simp
      then show ?thesis by (simp add: parts_summary_def y k2 n2)
    next
      case (Inr success)
      show ?thesis
      proof (cases success)
        case False
        with less.prems ne sf Inr have y: "y = (Inr (False, n), s2)"
          by (simp add: unfold)
        from send_file_not_True [OF sf] Inr False
        have "clean (new_calls s1 s2) \<or> failed (new_calls s1 s2)" by simp
        then show ?thesis by (simp add: parts_summary_def y k2 n2)
      next
        case True
        define s3 where "s3 = s2\<lparr>file_counter := file_counter s2 + 1\<rparr>"
        from less.prems ne sf Inr True
        have rec: "send_parts E td bn cs tp (drop cs rest) (n + 1) s3 = Some y"
          by (simp add: unfold s3_def)
        have shorter: "length (drop cs rest) < length rest"
          using ne by (cases rest) auto
        note ih = less.hyps [OF shorter rec, unfolded parts_summary_def]
        have sfT: "send_file E name cap (Some n) (Some tp) 0 s1 = Some (Inr True, s2)"
          using sf Inr True by simp
        from send_file_True [OF sfT]
        have d2: "delivered (new_calls s1 s2)
                  = [(name, take cs rest, escape_markdown cap @ part_marker (Some n) (Some tp))]"
          and c2: "clean (new_calls s1 s2)" and m2: "messages s2 = messages s"
          by (simp_all add: s1_def)
        have fc2: "file_counter s2 = file_counter s"
          using send_file_kept(2) [OF sf] by (simp add: s1_def)
        have k3: "kept s s3" and n3: "new_calls s s3 = new_calls s s2"
          by (rule kept_step [OF k2]; simp add: s3_def)+
        have k3y: "kept s3 (snd y)" using ih by simp
        have ky: "kept s (snd y)" by (rule kept_trans [OF k3 k3y])
        have ny: "new_calls s (snd y) = new_calls s1 s2 @ new_calls s3 (snd y)"
          using new_calls_trans [OF k3 k3y] by (simp add: n3 n2)
        have ch: "chunks cs rest = take cs rest # chunks cs (drop cs rest)"
          by (rule chunks_Cons [OF ne])
        show ?thesis
        proof (cases "fst y")
          case (Inl e)
          with ih have "clean (new_calls s3 (snd y)) \<or> failed (new_calls s3 (snd y))" by simp
          then have "clean (new_calls s (snd y)) \<or> failed (new_calls s (snd y))"
            unfolding ny using c2 by (auto intro: failed_append)
          with Inl show ?thesis by (simp add: parts_summary_def ky)
        next
          case (Inr bm)
          obtain b m where bm: "bm = (b, m)" by (cases bm)
          show ?thesis
          proof (cases b)
            case False
            with ih Inr bm have "clean (new_calls s3 (snd y)) \<or> failed (new_calls s3 (snd y))" by simp
            then have "clean (new_calls s (snd y)) \<or> failed (new_calls s (snd y))"
              unfolding ny using c2 by (auto intro: failed_append)
            with Inr bm False show ?thesis by (simp add: parts_summary_def ky)
          next
            case True
            with ih Inr bm have
              c: "clean (new_calls s3 (snd y))"
              and m: "m = n + 1 + length (chunks cs (drop cs rest))"
              and d: "delivered (new_calls s3 (snd y))
                      = map (part_document td bn tp) (zip [n + 1..<m] (chunks cs (drop cs rest)))"
              and ms: "messages (snd y) = messages s3"
              and fc: "file_counter (snd y) = file_counter s3 + int (length (chunks cs (drop cs rest)))"
              by simp_all
            have "n < m" using m by simp
            then have u: "[n..<m] = n # [n + 1..<m]" by (simp only: upt_conv_Cons Suc_eq_plus1)
            have "delivered (new_calls s (snd y))
                  = map (part_document td bn tp) (zip [n..<m] (chunks cs rest))"
              unfolding ny u ch by (simp add: d2 d part_document_def name_def cap_def)
            moreover have "messages (snd y) = messages s" using ms m2 by (simp add: s3_def)
            moreover have "file_counter (snd y) = file_counter s + int (length (chunks cs rest))"
              using fc fc2 by (simp add: ch s3_def)
            moreover have "m = n + length (chunks cs rest)" using m by (simp add: ch)
            moreover have "clean (new_calls s (snd y))" unfolding ny using c c2 by simp
            ultimately show ?thesis using Inr bm True by (simp add: parts_summary_def ky)
          qed
        qed
      qed
    qed
  qed
qed

text \<open>The blocks read from a file: how many, which, and that they make up the file.\<close>

lemma chunks_nonempty: "chunks n xs \<noteq> [] \<Longrightarrow> take n xs \<noteq> []"
proof
  assume a: "chunks n xs \<noteq> []" and "take n xs = []"
  from chunks_Nil [OF this(2)] a show False by simp
qed

lemma concat_chunks: "0 < n \<Longrightarrow> concat (chunks n xs) = xs"
proof (induction "length xs" arbitrary: xs rule: less_induct)
  case less
  show ?case
  proof (cases "take n xs = []")
    case True
    with less.prems have "xs = []" by (cases xs) auto
    with True show ?thesis by (simp add: chunks_Nil)
  next
    case False
    then have "length (drop n xs) < length xs" using less.prems by (cases xs) auto
    from less.hyps [OF this less.prems] show ?thesis by (simp add: chunks_Cons [OF False])
  qed
qed

lemma length_chunks: "0 < n \<Longrightarrow> length (chunks n xs) = (length xs + n - 1) div n"
proof (induction "length xs" arbitrary: xs rule: less_induct)
  case less
  show ?case
  proof (cases "take n xs = []")
    case True
    with less.prems have "xs = []" by (cases xs) auto
    with True less.prems show ?thesis by (simp add: chunks_Nil)
  next
    case False
    note ne = this
    then have xs: "0 < length xs" by auto
    then have sh: "length (drop n xs) < length xs" using less.prems by simp
    have ih: "length (chunks n (drop n xs)) = (length xs - n + n - 1) div n"
      using less.hyps [OF sh less.prems] by simp
    show ?thesis
    proof (cases "n \<le> length xs")
      case True
      then have e: "length xs - n + n - 1 = length xs - 1" by simp
      have "length xs + n - 1 = (length xs - 1) + n" using xs by (cases "length xs") simp_all
      then have "(length xs + n - 1) div n = Suc ((length xs - 1) div n)"
        using less.prems by (simp only: div_add_self2)
      with ih e show ?thesis by (simp add: chunks_Cons [OF ne])
    next
      case False
      then have a: "(length xs - n + n - 1) div n = 0" using less.prems by simp
      have "(length xs + n - 1) div n = 1"
      proof (rule div_nat_eqI)
        show "n * 1 \<le> length xs + n - 1" using xs by (cases xs) simp_all
        show "length xs + n - 1 < n * Suc 1" using False xs by (cases xs) simp_all
      qed
      with ih a show ?thesis by (simp add: chunks_Cons [OF ne])
    qed
  qed
qed

lemma ceil_div: "0 < n \<Longrightarrow> m div n + (if m mod n \<noteq> 0 then 1 else 0) = (m + n - 1) div (n::nat)"
proof -
  assume n: "0 < n"
  define q where "q = m div n"
  define r where "r = m mod n"
  define p where "p = n * q"
  have m: "m = p + r" by (simp add: p_def q_def r_def)
  have r: "r < n" using n by (simp add: r_def)
  have p1: "n * Suc q = p + n" and p2: "n * Suc (Suc q) = p + n + n" by (simp_all add: p_def)
  show ?thesis
  proof (cases "r = 0")
    case True
    have "(m + n - 1) div n = q"
    proof (rule div_nat_eqI)
      show "n * q \<le> m + n - 1" unfolding p_def [symmetric] using m n by linarith
      show "m + n - 1 < n * Suc q" unfolding p1 using m True n by linarith
    qed
    moreover have "m mod n = 0" using True by (simp add: r_def)
    ultimately show ?thesis by (simp add: q_def)
  next
    case False
    have "(m + n - 1) div n = Suc q"
    proof (rule div_nat_eqI)
      show "n * Suc q \<le> m + n - 1" unfolding p1 using m False by linarith
      show "m + n - 1 < n * Suc (Suc q)" unfolding p2 using m r by linarith
    qed
    moreover have "m mod n \<noteq> 0" using False by (simp add: r_def)
    ultimately show ?thesis by (simp add: q_def)
  qed
qed

lemma count_parts_chunks:
  "count_parts (length xs) n = Inr t \<longleftrightarrow> 0 < n \<and> t = length (chunks n xs)"
proof (cases "n = 0")
  case True
  then show ?thesis by (simp add: count_parts_def)
next
  case False
  then have n: "0 < n" by simp
  from ceil_div [OF n, of "length xs"] n show ?thesis
    by (auto simp: count_parts_def length_chunks)
qed

lemma nth_chunks:
  "i < length (chunks n xs) \<Longrightarrow> chunks n xs ! i = take n (drop (i * n) xs)"
proof (induction i arbitrary: xs)
  case 0
  then have "chunks n xs \<noteq> []" by auto
  then have "take n xs \<noteq> []" by (rule chunks_nonempty)
  then show ?case by (simp add: chunks_Cons)
next
  case (Suc i)
  then have "chunks n xs \<noteq> []" by auto
  then have ne: "take n xs \<noteq> []" by (rule chunks_nonempty)
  with Suc.prems have "i < length (chunks n (drop n xs))" by (simp add: chunks_Cons)
  from Suc.IH [OF this] show ?case by (simp add: chunks_Cons [OF ne] add.commute)
qed

text \<open>Building the archive to split, and the body of \<^verbatim>\<open>split_and_send_zip\<close>.\<close>

lemma create_zip_archive_Inl:
  "create_zip_archive E fp bn td skip s = (Inl e, s1) \<Longrightarrow> s1 = s"
  by (auto simp: create_zip_archive_def Let_def split: if_splits sum.splits)

lemma create_zip_archive_Inr:
  assumes "create_zip_archive E fp (basename fp) td skip s = (Inr zp, s1)"
  shows "documents s1 = documents s" "file_history s1 = file_history s"
    "saved_history s1 = saved_history s" "file_counter s1 = file_counter s"
    "messages s1 = messages s"
    "read_file s1 zp = Inr A \<Longrightarrow> \<exists>content. read_file s fp = Inr content \<and> A = split_content E fp skip content"
proof -
  show "documents s1 = documents s" "file_history s1 = file_history s"
    "saved_history s1 = saved_history s" "file_counter s1 = file_counter s"
    "messages s1 = messages s"
    using assms
    by (auto simp: create_zip_archive_def write_archive_def Let_def split: if_splits sum.splits)
  assume A: "read_file s1 zp = Inr A"
  show "\<exists>content. read_file s fp = Inr content \<and> A = split_content E fp skip content"
  proof (cases "\<not> skip \<and> COMPRESSION_LEVEL (cfg E) \<noteq> ''none'' \<and> \<not> endswith (lower fp) ''.zip''")
    case True
    with assms obtain content where c: "read_file s fp = Inr content"
      and s1: "s1 = write_file zp
                 (zip_write E (if COMPRESSION_LEVEL (cfg E) = ''default'' then ZIP_DEFLATED else ZIP_STORED)
                    (if ENABLE_ENCRYPTION (cfg E) then Some (ZIP_PASSWORD (cfg E)) else None)
                    (basename fp) content) s"
      by (auto simp: create_zip_archive_def write_archive_def Let_def split: if_splits sum.splits)
    from True have "split_content E fp skip content
        = zip_write E (if COMPRESSION_LEVEL (cfg E) = ''default'' then ZIP_DEFLATED else ZIP_STORED)
                    (if ENABLE_ENCRYPTION (cfg E) then Some (ZIP_PASSWORD (cfg E)) else None)
                    (basename fp) content"
      unfolding split_content_def by (rule if_P)
    with A have "A = split_content E fp skip content"
      unfolding s1 by simp
    with c show ?thesis by simp
  next
    case False
    with assms have "zp = fp" "s1 = s"
      by (auto simp: create_zip_archive_def)
    moreover from False have "split_content E fp skip A = A"
      unfolding split_content_def by (rule if_not_P)
    ultimately show ?thesis using A by simp
  qed
qed


lemma split_in_temp_dir_summary:
  assumes "split_in_temp_dir E fp skip (basename fp) td s = Some (r, s')"
  shows "kept s s'
       \<and> (clean (new_calls s s') \<or> failed (new_calls s s'))
       \<and> (r = Inr True \<longrightarrow>
            clean (new_calls s s') \<and>
            (\<exists>content. read_file s fp = Inr content \<and> 0 < MAX_FILE_SIZE (cfg E)
               \<and> delivered (new_calls s s')
                   = parts_sent td (basename fp) (MAX_FILE_SIZE (cfg E)) (split_content E fp skip content)
               \<and> file_counter s'
                   = file_counter s
                     + int (length (chunks (MAX_FILE_SIZE (cfg E)) (split_content E fp skip content)))))"
    (is "?Q r s'")
proof -
  define P where "P = MAX_FILE_SIZE (cfg E)"
  define bn where "bn = basename fp"
  define zc where "zc \<longleftrightarrow> \<not> skip \<and> COMPRESSION_LEVEL (cfg E) \<noteq> ''none'' \<and> \<not> endswith (lower fp) ''.zip''"
  note def = split_in_temp_dir_def [of E fp skip bn td s, folded P_def zc_def]
  note a = assms [folded bn_def]
  have raise: "?Q (Inl e) s1" if "kept s s1" "new_calls s s1 = []" for e s1
    using that by simp
  obtain z s1 where cz: "create_zip_archive E fp bn td skip s = (z, s1)"
    by (cases "create_zip_archive E fp bn td skip s")
  show ?thesis
  proof (cases z)
    case (Inl e)
    with cz have "s1 = s" by (simp add: create_zip_archive_Inl)
    moreover from a cz Inl have "r = Inl e" "s' = s1" by (simp_all add: def)
    ultimately show ?thesis by simp
  next
    case (Inr zp)
    note z1 = create_zip_archive_Inr [OF cz [unfolded Inr bn_def]]
    have k1: "kept s s1" by (rule kept_same) (simp_all add: z1)
    have n1: "new_calls s s1 = []" by (simp add: new_calls_def z1)
    show ?thesis
    proof (cases "getsize s1 zp")
      case (Inl e)
      with a cz Inr have "r = Inl e" "s' = s1" by (simp_all add: def)
      with raise [OF k1 n1] show ?thesis by simp
    next
      case gs: (Inr zip_size)
      then obtain A where A: "read_file s1 zp = Inr A" and zs: "zip_size = length A"
        by (auto simp: getsize_read_file)
      from z1(6) [OF A] obtain content where c: "read_file s fp = Inr content"
        and Ac: "A = split_content E fp skip content" by auto
      show ?thesis
      proof (cases "count_parts zip_size P")
        case (Inl e)
        with a cz Inr gs have "r = Inl e" "s' = s1" by (simp_all add: def)
        with raise [OF k1 n1] show ?thesis by simp
      next
        case cp: (Inr total)
        then have P: "0 < P" and total: "total = length (chunks P A)"
          by (simp_all add: zs count_parts_chunks)
        obtain y where sp: "send_parts E td bn P total A 1 s1 = Some y"
          using a cz Inr gs cp A by (cases "send_parts E td bn P total A 1 s1") (simp_all add: def)
        note ps = send_parts_summary [OF sp, unfolded parts_summary_def]
        obtain r2 s2 where y: "y = (r2, s2)" by (cases y)
        have k12: "kept s1 s2" using ps by (simp add: y)
        have k2: "kept s s2" by (rule kept_trans [OF k1 k12])
        have n2: "new_calls s s2 = new_calls s1 s2"
          using new_calls_trans [OF k1 k12] by (simp add: n1)
        show ?thesis
        proof (cases r2)
          case (Inl e)
          with a cz Inr gs cp A sp y have "r = Inl e" "s' = s2" by (simp_all add: def)
          moreover from ps Inl have "clean (new_calls s s2) \<or> failed (new_calls s s2)" by (simp add: y n2)
          ultimately show ?thesis using k2 by simp
        next
          case r2: (Inr bm)
          obtain b m where bm: "bm = (b, m)" by (cases bm)
          show ?thesis
          proof (cases b)
            case False
            with a cz Inr gs cp A sp y r2 bm have "r = Inr False" "s' = s2" by (simp_all add: def)
            moreover from ps r2 bm False have "clean (new_calls s s2) \<or> failed (new_calls s s2)"
              by (simp add: y n2)
            ultimately show ?thesis using k2 by simp
          next
            case True
            from ps r2 bm True have cl: "clean (new_calls s s2)"
              and m: "m = 1 + length (chunks P A)"
              and d: "delivered (new_calls s s2)
                      = map (part_document td bn total) (zip [1..<m] (chunks P A))"
              and fc: "file_counter s2 = file_counter s1 + int (length (chunks P A))"
              by (simp_all add: y n2)
            have d': "delivered (new_calls s s2) = parts_sent td bn P A"
              using d m by (simp add: parts_sent_def total)
            obtain q s3 where sri: "send_reassembly_instructions E bn m s2 = (q, s3)"
              by (cases "send_reassembly_instructions E bn m s2")
            note f3 = send_reassembly_instructions_fields [OF sri]
            have k3: "kept s s3" and n3: "new_calls s s3 = new_calls s s2"
              by (rule kept_step [OF k2]; simp add: f3)+
            have fc3: "file_counter s3 = file_counter s + int (length (chunks P A))"
              using fc by (simp add: f3 z1)
            have good: "?Q (Inr True) s4"
              if "kept s s4" "new_calls s s4 = new_calls s s2" "file_counter s4 = file_counter s3" for s4
              using that cl d' c P fc3 by (simp add: Ac P_def bn_def)
            show ?thesis
            proof (cases q)
              case (Inl e)
              with a cz Inr gs cp A sp y r2 bm True sri have "r = Inl e" "s' = s3"
                by (simp_all add: def)
              with k3 n3 cl show ?thesis by simp
            next
              case sent: (Inr u)
              show ?thesis
              proof (cases zc)
                case False
                with a cz Inr gs cp A sp y r2 bm True have "r = Inr True" "s' = s3"
                  by (simp_all add: def sri sent)
                with good [OF k3 n3] show ?thesis by simp
              next
                case zipped: True
                show ?thesis
                proof (cases "remove zp s3")
                  case (Inl e)
                  with a cz Inr gs cp A sp y r2 bm True zipped have "r = Inl e" "s' = s3"
                    by (simp_all add: def sri sent)
                  with k3 n3 cl show ?thesis by simp
                next
                  case rm: (Inr s4)
                  with a cz Inr gs cp A sp y r2 bm True zipped have rs: "r = Inr True" "s' = s4"
                    by (simp_all add: def sri sent)
                  note f4 = remove_fields [OF rm]
                  have "kept s s4" "new_calls s s4 = new_calls s s3"
                    by (rule kept_step [OF k3]; simp add: f4)+
                  with good [of s4] n3 f4 rs show ?thesis by simp
                qed
              qed
            qed
          qed
        qed
      qed
    qed
  qed
qed

text \<open>\<^verbatim>\<open>split_and_send_zip\<close> as a whole.\<close>

lemma contents_parts_sent:
  "map (\<lambda>d. fst (snd d)) (parts_sent td bn P A) = chunks P A"
proof -
  have "map (\<lambda>d. fst (snd d)) (parts_sent td bn P A)
        = map snd (zip [1..<Suc (length (chunks P A))] (chunks P A))"
    by (simp add: parts_sent_def part_document_def comp_def del: upt_Suc)
  also have "\<dots> = chunks P A"
    by (rule map_snd_zip) (simp del: upt_Suc)
  finally show ?thesis .
qed

lemma length_parts_sent: "length (parts_sent td bn P A) = length (chunks P A)"
  by (simp add: parts_sent_def del: upt_Suc)

lemma split_and_send_zip_summary:
  assumes "split_and_send_zip E fp skip s = Some (r, s')"
  shows "kept s s'
       \<and> (clean (new_calls s s') \<or> failed (new_calls s s'))
       \<and> (\<forall>sz. r = Inr (True, sz) \<longrightarrow> clean (new_calls s s')
            \<and> (\<exists>content. read_file s fp = Inr content \<and> sz = length content
                  \<and> 0 < MAX_FILE_SIZE (cfg E)
                  \<and> delivered (new_calls s s')
                      = parts_sent (tempdir_name (temp_dirs s)) (basename fp) (MAX_FILE_SIZE (cfg E))
                          (split_content E fp skip content)
                  \<and> file_counter s'
                      = file_counter s
                        + int (length (chunks (MAX_FILE_SIZE (cfg E)) (split_content E fp skip content)))))"
proof (cases "getsize s fp")
  case (Inl e)
  with assms have sf: "split_failed E (basename fp) s = (r, s')"
    by (simp add: split_and_send_zip_def)
  note f = split_failed_fields [OF sf]
  from f show ?thesis by (simp add: kept_def new_calls_def)
next
  case (Inr original_size)
  define td where "td = tempdir_name (temp_dirs s)"
  define s1 where "s1 = snd (mkdtemp s)"
  have mk: "mkdtemp s = (td, s1)" by (simp add: td_def s1_def mkdtemp_def)
  have k1: "kept s s1" by (rule kept_same) (simp_all add: s1_def)
  have n1: "new_calls s s1 = []" by (simp add: new_calls_def s1_def)
  have rd: "read_file s1 fp = read_file s fp" by (rule read_file_cong) (simp add: s1_def)
  have fc1: "file_counter s1 = file_counter s" by (simp add: s1_def)
  obtain q s2 where body: "split_in_temp_dir E fp skip (basename fp) td s1 = Some (q, s2)"
    using assms Inr mk
    by (cases "split_in_temp_dir E fp skip (basename fp) td s1") (auto simp: split_and_send_zip_def)
  note sm = split_in_temp_dir_summary [OF body]
  from sm have k12: "kept s1 s2" by simp
  have k2: "kept s s2" by (rule kept_trans [OF k1 k12])
  have n2: "new_calls s s2 = new_calls s1 s2" using new_calls_trans [OF k1 k12] by (simp add: n1)
  have kc: "kept s (cleanup td s2)" and nc: "new_calls s (cleanup td s2) = new_calls s s2"
    by (rule kept_step [OF k2]; simp)+
  from sm have cf: "clean (new_calls s s2) \<or> failed (new_calls s s2)" by (simp add: n2)
  show ?thesis
  proof (cases q)
    case (Inl e)
    with assms Inr mk body have sf: "split_failed E (basename fp) (cleanup td s2) = (r, s')"
      by (simp add: split_and_send_zip_def)
    note f = split_failed_fields [OF sf]
    have "kept s s'" "new_calls s s' = new_calls s (cleanup td s2)"
      by (rule kept_step [OF kc]; simp add: f)+
    with cf f(7) show ?thesis by (simp add: nc)
  next
    case q: (Inr success)
    show ?thesis
    proof (cases success)
      case False
      with assms Inr mk body q have "r = Inr (False, 0)" "s' = cleanup td s2"
        by (simp_all add: split_and_send_zip_def)
      with cf show ?thesis using kc by (simp add: nc)
    next
      case True
      with assms Inr mk body q have bs: "r = Inr (True, original_size)" "s' = cleanup td s2"
        by (simp_all add: split_and_send_zip_def)
      from sm q True obtain content where
        c: "read_file s1 fp = Inr content" and P: "0 < MAX_FILE_SIZE (cfg E)"
        and d: "delivered (new_calls s1 s2)
                = parts_sent td (basename fp) (MAX_FILE_SIZE (cfg E)) (split_content E fp skip content)"
        and fc: "file_counter s2
                = file_counter s1
                  + int (length (chunks (MAX_FILE_SIZE (cfg E)) (split_content E fp skip content)))"
        and cl: "clean (new_calls s1 s2)"
        by auto
      from Inr c have "original_size = length content"
        by (simp add: getsize_read_file rd)
      with c P d fc cl kc show ?thesis
        unfolding bs td_def [symmetric] by (simp add: nc n2 rd fc1)
    qed
  qed
qed

text \<open>When the transport delivers every document, the split goes through.\<close>

lemma after_delivery_accepted:
  assumes "delete_message E (length (deleted s))"
  shows "\<exists>s'. after_delivery E fp s = (Inr True, s') \<and> length (deleted s) \<le> length (deleted s')"
proof -
  define s2 where "s2 = (if ENABLE_FORWARD (cfg E)
      then forward_message E (next_message_id s) (s\<lparr>next_message_id := next_message_id s + 1\<rparr>)
      else s\<lparr>next_message_id := next_message_id s + 1\<rparr>)"
  have d2: "deleted s2 = deleted s" by (simp add: s2_def forward_message_def)
  note def = after_delivery_def [of E fp s, unfolded Let_def, folded s2_def]
  show ?thesis
    using assms by (cases "map_of (error_messages s2) fp") (simp_all add: def bot_delete_message_def d2)
qed

lemma send_file_delivers:
  assumes "read_file s fp = Inr content"
    and "send_document E (length (documents s)) = Delivered"
    and "nested < recursion_limit E"
    and "delete_message E (length (deleted s))"
  shows "\<exists>s'. send_file E fp cap pn tp nested s = Some (Inr True, s')
            \<and> files s' = files s
            \<and> length (documents s') = Suc (length (documents s))
            \<and> length (deleted s) \<le> length (deleted s')
            \<and> messages s' = messages s"
proof -
  define s1 where "s1 = s\<lparr>documents := documents s @ [(fp, content, escape_markdown cap @ part_marker pn tp, Delivered)]\<rparr>"
  have "delete_message E (length (deleted s1))" using assms(4) by (simp add: s1_def)
  from after_delivery_accepted [OF this, of fp] obtain s2 where
    ad: "after_delivery E fp s1 = (Inr True, s2)" and d: "length (deleted s1) \<le> length (deleted s2)"
    by auto
  note f = after_delivery_fields [OF ad]
  have "send_file E fp cap pn tp nested s = Some (Inr True, s2)"
    using assms(1,2,3) ad by (subst send_file.simps) (simp add: Let_def s1_def [symmetric])
  moreover have "files s2 = files s" "length (documents s2) = Suc (length (documents s))"
    "length (deleted s) \<le> length (deleted s2)" "messages s2 = messages s"
    using f d by (simp_all add: s1_def)
  ultimately show ?thesis by simp
qed

lemma map_of_update_keeps:
  "map_of al p \<noteq> None \<Longrightarrow> map_of (AList.update k v al) p \<noteq> None"
  by (simp add: update_conv')

lemma send_parts_delivers:
  assumes "\<forall>k\<ge>length (documents s). send_document E k = Delivered"
    and "\<forall>k\<ge>length (deleted s). delete_message E k"
    and "0 < recursion_limit E"
    and "map_of (files s) p \<noteq> None"
  shows "\<exists>m s'. send_parts E td bn cs tp rest n s = Some (Inr (True, m), s')
               \<and> map_of (files s') p \<noteq> None \<and> messages s' = messages s"
  using assms(1,2,4)
proof (induction "length rest" arbitrary: rest n s rule: less_induct)
  case less
  define name where "name = join td (bn @ ''.'' @ fmt_03d n)"
  define cap where "cap = ''Part '' @ str_nat n @ '' of '' @ bn"
  define s1 where "s1 = write_file name (take cs rest) s"
  note unfold = send_parts_unfold [of E td bn cs tp rest n s, folded name_def cap_def, folded s1_def]
  show ?case
  proof (cases "take cs rest = []")
    case True
    then show ?thesis using less.prems(3) by (simp add: unfold)
  next
    case False
    have r1: "read_file s1 name = Inr (take cs rest)" by (simp add: s1_def)
    have d1: "send_document E (length (documents s1)) = Delivered"
      using less.prems(1) by (simp add: s1_def)
    have e1: "delete_message E (length (deleted s1))"
      using less.prems(2) by (simp add: s1_def write_file_def)
    from send_file_delivers [OF r1 d1 assms(3) e1, of cap "Some n" "Some tp"]
    obtain s2 where sf: "send_file E name cap (Some n) (Some tp) 0 s1 = Some (Inr True, s2)"
      and f2: "files s2 = files s1" and l2: "length (documents s2) = Suc (length (documents s1))"
      and e2: "length (deleted s1) \<le> length (deleted s2)" and m2: "messages s2 = messages s1"
      by auto
    define s3 where "s3 = s2\<lparr>file_counter := file_counter s2 + 1\<rparr>"
    have step: "send_parts E td bn cs tp rest n s = send_parts E td bn cs tp (drop cs rest) (n + 1) s3"
      using False sf by (simp add: unfold s3_def)
    have shorter: "length (drop cs rest) < length rest"
      using False by (cases rest) auto
    have l3: "length (documents s3) = Suc (length (documents s))"
      by (simp add: s3_def l2 s1_def)
    have t3: "\<forall>k\<ge>length (documents s3). send_document E k = Delivered"
      using less.prems(1) by (simp add: l3)
    have e3: "\<forall>k\<ge>length (deleted s3). delete_message E k"
      using less.prems(2) e2 by (simp add: s3_def s1_def write_file_def)
    have f3: "map_of (files s3) p \<noteq> None"
      using less.prems(3) by (simp add: s3_def f2 s1_def map_of_update_keeps)
    have m3: "messages s3 = messages s" by (simp add: s3_def m2 s1_def)
    from less.hyps [OF shorter t3 e3 f3] show ?thesis unfolding step m3 .
  qed
qed

lemma send_reassembly_instructions_accepted:
  assumes "\<forall>k\<ge>length (messages s). send_message E k"
  shows "\<exists>s'. send_reassembly_instructions E b n s = (Inr (), s')
           \<and> messages s' = messages s @ instructions_sent E b n (next_message_id s)"
proof -
  have 1: "send_message E (length (messages s))" using assms by simp
  have 2: "send_message E (Suc (length (messages s)))" using assms by simp
  show ?thesis
    by (simp add: send_reassembly_instructions_def bot_send_message_def instructions_sent_def Let_def 1 2)
qed

lemma split_in_temp_dir_delivers:
  assumes "read_file s fp = Inr content"
    and "0 < MAX_FILE_SIZE (cfg E)"
    and "\<forall>k\<ge>length (documents s). send_document E k = Delivered"
    and "\<forall>k\<ge>length (deleted s). delete_message E k"
    and "\<forall>k\<ge>length (messages s). send_message E k"
    and "0 < recursion_limit E"
    and "skip \<or> COMPRESSION_LEVEL (cfg E) = ''none'' \<or> endswith (lower fp) ''.zip''
         \<or> \<not> ENABLE_ENCRYPTION (cfg E) \<or> ZIP_PASSWORD (cfg E) \<noteq> []"
  shows "\<exists>s'. split_in_temp_dir E fp skip bn td s = Some (Inr True, s')"
proof -
  define P where "P = MAX_FILE_SIZE (cfg E)"
  define zc where "zc \<longleftrightarrow> \<not> skip \<and> COMPRESSION_LEVEL (cfg E) \<noteq> ''none'' \<and> \<not> endswith (lower fp) ''.zip''"
  note def = split_in_temp_dir_def [of E fp skip bn td s, folded P_def zc_def]
  have P: "0 < P" using assms(2) by (simp add: P_def)
  obtain zp s1 where cz: "create_zip_archive E fp bn td skip s = (Inr zp, s1)"
    and d1: "documents s1 = documents s" "deleted s1 = deleted s" "messages s1 = messages s"
    and f1: "map_of (files s1) zp \<noteq> None"
  proof (cases zc)
    case True
    define zp where "zp = join td (bn @ ''.zip'')"
    define Z where "Z = zip_write E (if COMPRESSION_LEVEL (cfg E) = ''default'' then ZIP_DEFLATED else ZIP_STORED)
                    (if ENABLE_ENCRYPTION (cfg E) then Some (ZIP_PASSWORD (cfg E)) else None) bn content"
    from True assms(7) have pw: "\<not> (ENABLE_ENCRYPTION (cfg E) \<and> ZIP_PASSWORD (cfg E) = [])"
      by (auto simp: zc_def)
    have "create_zip_archive E fp bn td skip s = (Inr zp, write_file zp Z s)"
      using True assms(1) pw
      by (simp add: create_zip_archive_def [of E fp bn td skip s, folded zc_def] write_archive_def Let_def zp_def Z_def)
    moreover have "map_of (files (write_file zp Z s)) zp \<noteq> None" by (simp add: update_conv')
    ultimately show ?thesis using that [of zp "write_file zp Z s"] by (simp add: write_file_def)
  next
    case False
    have "create_zip_archive E fp bn td skip s = (Inr fp, s)"
      using False by (simp add: create_zip_archive_def [of E fp bn td skip s, folded zc_def])
    moreover have "map_of (files s) fp \<noteq> None"
      using assms(1) by (auto simp: read_file_def split: option.splits)
    ultimately show ?thesis using that [of fp s] by simp
  qed
  from f1 obtain A where A: "read_file s1 zp = Inr A"
    by (auto simp: read_file_def)
  then have gs: "getsize s1 zp = Inr (length A)" by (simp add: getsize_read_file)
  have cp: "count_parts (length A) P = Inr (length (chunks P A))"
    using P by (simp add: count_parts_chunks)
  have t1: "\<forall>k\<ge>length (documents s1). send_document E k = Delivered"
    using assms(3) by (simp add: d1)
  have e1: "\<forall>k\<ge>length (deleted s1). delete_message E k"
    using assms(4) by (simp add: d1)
  from send_parts_delivers [OF t1 e1 assms(6) f1, of td bn P "length (chunks P A)" A 1]
  obtain m s2 where sp: "send_parts E td bn P (length (chunks P A)) A 1 s1 = Some (Inr (True, m), s2)"
    and f2: "map_of (files s2) zp \<noteq> None" and m2: "messages s2 = messages s1" by auto
  have "\<forall>k\<ge>length (messages s2). send_message E k" using assms(5) by (simp add: m2 d1)
  from send_reassembly_instructions_accepted [OF this, of bn m]
  obtain s3 where sri: "send_reassembly_instructions E bn m s2 = (Inr (), s3)" by auto
  have f3: "files s3 = files s2" by (rule send_reassembly_instructions_fields [OF sri])
  show ?thesis
  proof (cases zc)
    case False
    then show ?thesis using cz gs cp A sp sri by (simp add: def Let_def)
  next
    case True
    from f2 obtain b where "map_of (files s3) zp = Some b"
      by (auto simp: f3)
    then obtain s4 where "remove zp s3 = Inr s4"
      by (simp add: remove_def)
    with True show ?thesis using cz gs cp A sp sri by (simp add: def Let_def)
  qed
qed

lemma split_and_send_zip_delivers:
  assumes "read_file s fp = Inr content"
    and "0 < MAX_FILE_SIZE (cfg E)"
    and "\<forall>k\<ge>length (documents s). send_document E k = Delivered"
    and "\<forall>k\<ge>length (deleted s). delete_message E k"
    and "\<forall>k\<ge>length (messages s). send_message E k"
    and "0 < recursion_limit E"
    and "skip \<or> COMPRESSION_LEVEL (cfg E) = ''none'' \<or> endswith (lower fp) ''.zip''
         \<or> \<not> ENABLE_ENCRYPTION (cfg E) \<or> ZIP_PASSWORD (cfg E) \<noteq> []"
  shows "\<exists>s'. split_and_send_zip E fp skip s = Some (Inr (True, length content), s')"
proof -
  define td where "td = tempdir_name (temp_dirs s)"
  define s1 where "s1 = snd (mkdtemp s)"
  have mk: "mkdtemp s = (td, s1)" by (simp add: td_def s1_def mkdtemp_def)
  have gs: "getsize s fp = Inr (length content)"
    using assms(1) by (simp add: getsize_read_file)
  have r1: "read_file s1 fp = Inr content"
    using assms(1) read_file_cong [of s1 s fp] by (simp add: s1_def)
  have t1: "\<forall>k\<ge>length (documents s1). send_document E k = Delivered"
    using assms(3) by (simp add: s1_def)
  have e1: "\<forall>k\<ge>length (deleted s1). delete_message E k"
    using assms(4) by (simp add: s1_def mkdtemp_def)
  have m1: "\<forall>k\<ge>length (messages s1). send_message E k"
    using assms(5) by (simp add: s1_def)
  from split_in_temp_dir_delivers [OF r1 assms(2) t1 e1 m1 assms(6,7), of "basename fp" td]
  obtain s2 where "split_in_temp_dir E fp skip (basename fp) td s1 = Some (Inr True, s2)" by auto
  then show ?thesis by (simp add: split_and_send_zip_def gs mk)
qed

lemma nth_parts_sent:
  assumes "i < length (chunks P A)"
  shows "parts_sent td bn P A ! i =
           (join td (bn @ ''.'' @ fmt_03d (i + 1)), take P (drop (i * P) A),
            escape_markdown (''Part '' @ str_nat (i + 1) @ '' of '' @ bn)
              @ part_marker (Some (i + 1)) (Some (length (chunks P A))))"
proof -
  have "zip [1..<Suc (length (chunks P A))] (chunks P A) ! i = (i + 1, chunks P A ! i)"
    using assms by (simp add: nth_zip del: upt_Suc)
  then show ?thesis
    using assms by (simp add: parts_sent_def part_document_def nth_chunks del: upt_Suc)
qed

lemma lower_append [simp]: "lower (a @ b) = lower a @ lower b"
  by (simp add: lower_def)

lemma lower_zip [simp]: "lower ''.zip'' = ''.zip''"
  by (simp add: lower_def lower_char_def)

lemma endswith_join_zip: "endswith (lower (join td (bn @ ''.zip''))) ''.zip''"
proof -
  have "join td (bn @ ''.zip'') = bn @ ''.zip'' \<or> join td (bn @ ''.zip'') = (td @ bn) @ ''.zip''
        \<or> join td (bn @ ''.zip'') = (td @ ''/'' @ bn) @ ''.zip''"
    by (simp add: join_def)
  then obtain x where "join td (bn @ ''.zip'') = x @ ''.zip''" by blast
  then have "lower (join td (bn @ ''.zip'')) = lower x @ ''.zip''" by simp
  then show ?thesis
    unfolding endswith_def by (simp only: suffix_def) blast
qed

lemma build_artifact_Inl:
  "build_artifact E fp bn td s = (Inl e, s1) \<Longrightarrow> s1 = s"
  by (auto simp: build_artifact_def Let_def split: if_splits sum.splits)

lemma build_artifact_Inr:
  assumes "build_artifact E fp (basename fp) td s = (Inr sp, s1)"
  shows "documents s1 = documents s" "file_history s1 = file_history s"
    "saved_history s1 = saved_history s" "file_counter s1 = file_counter s"
    "read_file s fp = Inr content \<Longrightarrow> read_file s1 sp = Inr (artifact E fp content)"
    "split_content E sp (endswith (lower sp) ''.zip'') A = A"
proof -
  define pass where "pass \<longleftrightarrow> COMPRESSION_LEVEL (cfg E) = ''none''
         \<or> (endswith (lower fp) ''.zip'' \<and> \<not> ENABLE_ENCRYPTION (cfg E))"
  note def = build_artifact_def [of E fp "basename fp" td s, folded pass_def]
  note art = artifact_def [of E fp, folded pass_def]
  show "documents s1 = documents s" "file_history s1 = file_history s"
    "saved_history s1 = saved_history s" "file_counter s1 = file_counter s"
    using assms
    by (auto simp: def write_archive_def Let_def split: if_splits sum.splits)
  show "read_file s1 sp = Inr (artifact E fp content)" if "read_file s fp = Inr content"
  proof (cases pass)
    case True
    with assms have "sp = fp" "s1 = s" by (simp_all add: def)
    with that True show ?thesis by (simp add: art)
  next
    case False
    with assms that have "s1 = write_file sp (artifact E fp content) s"
      by (auto simp: def art write_archive_def Let_def split: sum.splits if_splits)
    then show ?thesis by simp
  qed
  show "split_content E sp (endswith (lower sp) ''.zip'') A = A"
  proof (cases "endswith (lower sp) ''.zip''")
    case True
    then show ?thesis by (simp add: split_content_def)
  next
    case False
    have "pass"
    proof (rule ccontr)
      assume "\<not> pass"
      with assms have "sp = join td (basename fp @ ''.zip'')"
        by (auto simp: def Let_def split: sum.splits)
      with False endswith_join_zip show False by simp
    qed
    with assms have sp: "sp = fp" by (simp add: def)
    with False \<open>pass\<close> have "COMPRESSION_LEVEL (cfg E) = ''none''" by (auto simp: pass_def)
    then show ?thesis by (simp add: split_content_def)
  qed
qed

lemma record_success_fields [simp]:
  "documents (record_success E fp h osz bn sz s) = documents s"
  "file_counter (record_success E fp h osz bn sz s) = file_counter s + 1"
  "file_history (record_success E fp h osz bn sz s) =
     AList.update fp
       \<lparr>hash = h, send_success = True, encrypted = ENABLE_ENCRYPTION (cfg E),
        encryption_algorithm = (if ENABLE_ENCRYPTION (cfg E) then ''AES'' else ''None''),
        file_id = file_counter s + 1, file_size = osz, processed_size = sz\<rparr>
       (file_history s)"
  "saved_history (record_success E fp h osz bn sz s) = file_history (record_success E fp h osz bn sz s)"
  by (simp_all add: record_success_def save_data_def send_event_to_backend_def Let_def)


lemma deliver_summary:
  assumes "deliver E sp bn s = Some (r, s')"
  shows "kept s s'
       \<and> (clean (new_calls s s') \<or> failed (new_calls s s'))
       \<and> (\<forall>sz. r = Inr (True, sz) \<longrightarrow>
             clean (new_calls s s')
             \<and> (\<exists>A. read_file s sp = Inr A
                   \<and> concat (map (\<lambda>d. fst (snd d)) (delivered (new_calls s s')))
                       = (if MAX_FILE_SIZE (cfg E) < length A
                          then split_content E sp (endswith (lower sp) ''.zip'') A else A)))"
proof (cases "getsize s sp")
  case (Inl e)
  with assms have "r = Inl e" "s' = s" by (simp_all add: deliver_def)
  then show ?thesis by simp
next
  case (Inr artifact_size)
  then obtain A where A: "read_file s sp = Inr A" and sz: "artifact_size = length A"
    by (auto simp: getsize_read_file)
  define skip where "skip = endswith (lower sp) ''.zip''"
  show ?thesis
  proof (cases "MAX_FILE_SIZE (cfg E) < artifact_size")
    case True
    have same: "(if skip then split_and_send_zip E sp True s else split_and_send_zip E sp False s)
                = split_and_send_zip E sp skip s" by simp
    from assms Inr True have sp: "split_and_send_zip E sp skip s = Some (r, s')"
      unfolding deliver_def skip_def [symmetric] same by simp
    note sm = split_and_send_zip_summary [OF sp]
    have "concat (map (\<lambda>d. fst (snd d)) (delivered (new_calls s s'))) = split_content E sp skip A"
      if "r = Inr (True, n)" for n
    proof -
      from sm that A have P: "0 < MAX_FILE_SIZE (cfg E)"
        and d: "delivered (new_calls s s')
                = parts_sent (tempdir_name (temp_dirs s)) (basename sp) (MAX_FILE_SIZE (cfg E))
                    (split_content E sp skip A)"
        by auto
      show ?thesis by (simp add: d contents_parts_sent concat_chunks [OF P])
    qed
    with sm A True show ?thesis by (auto simp: sz skip_def)
  next
    case False
    from assms Inr False obtain r1 where
      sf: "send_file E sp (single_caption E bn) None None 0 s = Some (r1, s')"
      by (cases "send_file E sp (single_caption E bn) None None 0 s")
         (auto simp: deliver_def split: sum.splits)
    note k = send_file_kept [OF sf]
    show ?thesis
    proof (cases r1)
      case (Inl e)
      with assms Inr False sf have "r = Inl e" by (simp add: deliver_def)
      with send_file_not_True [OF sf] Inl k(1) show ?thesis by simp
    next
      case r1: (Inr success)
      have g: "getsize s' sp = Inr (length A)"
        using A getsize_cong [OF k(3), of sp] by (simp add: getsize_read_file)
      from assms Inr False sf r1 g have r: "r = Inr (success, length A)"
        by (simp add: deliver_def)
      show ?thesis
      proof (cases success)
        case True
        from sf r1 True have "send_file E sp (single_caption E bn) None None 0 s = Some (Inr True, s')"
          by simp
        from send_file_True [OF this] A \<open>\<not> MAX_FILE_SIZE (cfg E) < artifact_size\<close> sz k(1) show ?thesis
          by (auto simp: r)
      next
        case False
        from send_file_not_True [OF sf] r1 False k(1) show ?thesis by (simp add: r)
      qed
    qed
  qed
qed

lemma process_in_temp_dir_summary:
  assumes "process_in_temp_dir E fp (md5 E content) (length content) (basename fp) td s = Some (r, s')"
    and "read_file s fp = Inr content"
  shows "(kept s s' \<and> (clean (new_calls s s') \<or> failed (new_calls s s')))
       \<or> (r = Inr () \<and> take (length (documents s)) (documents s') = documents s
           \<and> clean (new_calls s s')
           \<and> concat (map (\<lambda>d. fst (snd d)) (delivered (new_calls s s'))) = artifact E fp content
           \<and> (\<exists>sz. recorded_as E fp content sz s s'))"
proof -
  define h where "h = md5 E content"
  define bn where "bn = basename fp"
  note def = process_in_temp_dir_def [of E fp h "length content" bn td s]
  note a = assms(1) [folded h_def bn_def]
  obtain z s1 where ba: "build_artifact E fp bn td s = (z, s1)"
    by (cases "build_artifact E fp bn td s")
  show ?thesis
  proof (cases z)
    case (Inl e)
    with ba have "s1 = s" by (simp add: build_artifact_Inl)
    moreover from a ba Inl have "s' = s1" by (simp add: def)
    ultimately show ?thesis by simp
  next
    case (Inr sp)
    note b1 = build_artifact_Inr [OF ba [unfolded Inr bn_def]]
    have k1: "kept s s1" by (rule kept_same) (simp_all add: b1)
    have n1: "new_calls s s1 = []" by (simp add: new_calls_def b1)
    have A: "read_file s1 sp = Inr (artifact E fp content)" by (rule b1(5) [OF assms(2)])
    show ?thesis
    proof (cases "new_or_modified (file_history s1) fp h")
      case False
      with a ba Inr have "s' = s1" by (simp add: def)
      with k1 n1 show ?thesis by simp
    next
      case True
      from a ba Inr True obtain r3 s3 where dl: "deliver E sp bn s1 = Some (r3, s3)"
        by (cases "deliver E sp bn s1") (auto simp: def)
      note ds = deliver_summary [OF dl]
      from ds have k13: "kept s1 s3" by simp
      have k3: "kept s s3" by (rule kept_trans [OF k1 k13])
      have n3: "new_calls s s3 = new_calls s1 s3" using new_calls_trans [OF k1 k13] by (simp add: n1)
      from ds have cf3: "clean (new_calls s s3) \<or> failed (new_calls s s3)" by (simp add: n3)
      show ?thesis
      proof (cases r3)
        case (Inl e)
        with a ba Inr True dl have "s' = s3" by (simp add: def)
        with k3 cf3 show ?thesis by simp
      next
        case r3: (Inr bsz)
        obtain success sz where bsz: "bsz = (success, sz)" by (cases bsz)
        show ?thesis
        proof (cases success)
          case False
          with a ba Inr True dl r3 bsz
          have s': "s' = send_event_to_backend ''failure'' bn (file_counter s3) h (length content) s3"
            by (simp add: def)
          have "kept s s'" "new_calls s s' = new_calls s s3"
            by (rule kept_step [OF k3]; simp add: s')+
          with cf3 show ?thesis by simp
        next
          case success: True
          with a ba Inr True dl r3 bsz
          have r: "r = Inr ()" and s': "s' = record_success E fp h (length content) bn sz s3"
            by (simp_all add: def)
          from ds r3 bsz success A have cl: "clean (new_calls s s3)"
            and cc: "concat (map (\<lambda>d. fst (snd d)) (delivered (new_calls s s3))) = artifact E fp content"
            by (simp_all add: n3 b1(6))
          from k3 have p3: "take (length (documents s)) (documents s3) = documents s"
            and h3: "file_history s3 = file_history s" and c3: "file_counter s \<le> file_counter s3"
            by (simp_all add: kept_def)
          have nn: "new_calls s s' = new_calls s s3" by (simp add: new_calls_def s')
          have "recorded_as E fp content sz s s'"
            using c3 by (simp add: recorded_as_def s' h3 h_def)
          with r p3 cl cc nn show ?thesis by (auto simp: s')
        qed
      qed
    qed
  qed
qed

lemma process_file_summary:
  assumes "process_file E fp s = Some (r, s')"
  shows "(kept s s' \<and> (clean (new_calls s s') \<or> failed (new_calls s s')))
       \<or> (r = Inr () \<and> take (length (documents s)) (documents s') = documents s
           \<and> clean (new_calls s s')
           \<and> (\<exists>content sz. read_file s fp = Inr content
                 \<and> \<not> hash_in_history (file_history s) (md5 E content)
                 \<and> concat (map (\<lambda>d. fst (snd d)) (delivered (new_calls s s'))) = artifact E fp content
                 \<and> recorded_as E fp content sz s s'))"
proof (cases "read_file s fp")
  case (Inl e)
  with assms have "s' = s" by (simp add: process_file_def calculate_md5_def)
  then show ?thesis by simp
next
  case (Inr content)
  then have md: "calculate_md5 E s fp = Inr (md5 E content)"
    and gs: "getsize s fp = Inr (length content)"
    by (simp_all add: calculate_md5_def getsize_read_file)
  note def = process_file_def [of E fp s, unfolded md gs sum.case Let_def]
  show ?thesis
  proof (cases "hash_in_history (file_history s) (md5 E content) \<or> extension_not_allowed E (basename fp)")
    case True
    with assms have "s' = s" by (auto simp: def split: if_splits)
    then show ?thesis by simp
  next
    case False
    define td where "td = tempdir_name (temp_dirs s)"
    define s1 where "s1 = snd (mkdtemp s)"
    have mk: "mkdtemp s = (td, s1)" by (simp add: td_def s1_def mkdtemp_def)
    have r1: "read_file s1 fp = Inr content"
      using Inr read_file_cong [of s1 s fp] by (simp add: s1_def)
    from assms False mk obtain s2 where
      body: "process_in_temp_dir E fp (md5 E content) (length content) (basename fp) td s1 = Some (r, s2)"
      and s': "s' = cleanup td s2"
      by (cases "process_in_temp_dir E fp (md5 E content) (length content) (basename fp) td s1")
         (auto simp: def)
    have d1: "documents s1 = documents s" and h1: "file_history s1 = file_history s"
      and c1: "file_counter s1 = file_counter s" and v1: "saved_history s1 = saved_history s"
      by (simp_all add: s1_def)
    have nn: "new_calls s (cleanup td s2) = new_calls s1 s2" by (simp add: new_calls_def d1)
    have kk: "kept s (cleanup td s2) \<longleftrightarrow> kept s1 s2" by (simp add: kept_def d1 h1 c1 v1)
    have dd: "documents (cleanup td s2) = documents s2" by simp
    have goal: "(kept s1 s2 \<and> (clean (new_calls s1 s2) \<or> failed (new_calls s1 s2)))
       \<or> (r = Inr () \<and> take (length (documents s)) (documents s2) = documents s
           \<and> clean (new_calls s1 s2)
           \<and> (\<exists>content sz. read_file s fp = Inr content
                 \<and> \<not> hash_in_history (file_history s) (md5 E content)
                 \<and> concat (map (\<lambda>d. fst (snd d)) (delivered (new_calls s1 s2))) = artifact E fp content
                 \<and> recorded_as E fp content sz s1 s2))"
      using process_in_temp_dir_summary [OF body r1] False Inr unfolding d1 by auto
    have tr: "recorded_as E fp c sz s (cleanup td s2) \<longleftrightarrow> recorded_as E fp c sz s1 s2" for sz c
      by (simp add: recorded_as_def h1 c1)
    show ?thesis
      unfolding s' nn kk tr dd by (rule goal)
  qed
qed

text \<open>The counter and the \<^verbatim>\<open>file_id\<close> of the records.\<close>

lemma max_by_file_id_None: "max_by_file_id xs = None \<longleftrightarrow> xs = []"
  by (cases xs) (auto split: option.splits if_splits)

lemma file_ids_values: "file_ids al = map file_id (map snd al)"
  by (simp add: file_ids_def case_prod_unfold)

lemma max_by_file_id_greatest:
  "max_by_file_id xs = Some x \<Longrightarrow> x \<in> set xs \<and> (\<forall>y\<in>set xs. file_id y \<le> file_id x)"
proof (induction xs arbitrary: x)
  case Nil
  then show ?case by simp
next
  case (Cons a xs)
  show ?case
  proof (cases "max_by_file_id xs")
    case None
    then have "xs = []" by (simp add: max_by_file_id_None)
    with Cons.prems show ?thesis by simp
  next
    case (Some y)
    from Cons.IH [OF Some] Cons.prems Some show ?thesis
      by (auto split: if_splits)
  qed
qed

lemma ids_bounded_load_history: "ids_bounded (load_history s)"
proof (cases "max_by_file_id (map snd (saved_history s))")
  case None
  then have "saved_history s = []" by (simp add: max_by_file_id_None)
  then show ?thesis by (simp add: ids_bounded_def load_history_def)
next
  case (Some x)
  from max_by_file_id_greatest [OF Some] show ?thesis
    by (simp add: ids_bounded_def load_history_def initial_counter_def Some list_all_iff)
qed

lemma set_update_values:
  "set (map snd (AList.update k v al)) \<subseteq> insert v (set (map snd al))"
  by (induction al) auto

lemma distinct_file_ids_update:
  assumes "distinct (file_ids al)" and "\<forall>old\<in>set (map snd al). file_id old \<noteq> file_id v"
  shows "distinct (file_ids (AList.update k v al))"
  using assms
proof (induction al)
  case Nil
  then show ?case by (simp add: file_ids_values)
next
  case (Cons a al)
  obtain k' v' where a: "a = (k', v')" by (cases a)
  have "file_id ` set (map snd (AList.update k v al)) \<subseteq> file_id ` insert v (set (map snd al))"
    by (rule image_mono) (rule set_update_values)
  then have sub: "set (file_ids (AList.update k v al)) \<subseteq> insert (file_id v) (set (file_ids al))"
    by (simp add: file_ids_values image_image)
  from Cons.prems have d: "distinct (file_ids al)" and n: "file_id v' \<notin> set (file_ids al)"
    and nv: "file_id v' \<noteq> file_id v"
    and rest: "\<forall>old\<in>set (map snd al). file_id old \<noteq> file_id v"
    by (simp_all add: a file_ids_values)
  show ?case
  proof (cases "k' = k")
    case True
    from rest have "file_id v \<notin> set (file_ids al)" by (auto simp: file_ids_values)
    with d True show ?thesis by (simp add: a file_ids_values)
  next
    case False
    have "distinct (file_ids (AList.update k v al))" by (rule Cons.IH [OF d rest])
    moreover have "file_id v' \<notin> set (file_ids (AList.update k v al))"
      using sub n nv by auto
    ultimately show ?thesis using False by (simp add: a file_ids_values)
  qed
qed

lemma process_file_ids:
  assumes "process_file E fp s = Some (r, s')" and "ids_bounded s"
  shows "ids_bounded s'" "file_counter s \<le> file_counter s'"
    "file_history s' \<noteq> file_history s \<Longrightarrow>
       \<exists>file_data. file_history s' = AList.update fp file_data (file_history s)
          \<and> file_id file_data = file_counter s'
          \<and> (\<forall>old\<in>set (map snd (file_history s)). file_id old < file_id file_data)"
    "distinct (file_ids (file_history s)) \<Longrightarrow> distinct (file_ids (file_history s'))"
proof -
  from assms(2) have old: "\<forall>old\<in>set (map snd (file_history s)). file_id old \<le> file_counter s"
    by (simp add: ids_bounded_def list_all_iff)
  from process_file_summary [OF assms(1)]
  consider (kept) "kept s s'"
    | (recorded) content sz where "recorded_as E fp content sz s s'"
    by auto
  then have "ids_bounded s' \<and> file_counter s \<le> file_counter s'
    \<and> (file_history s' \<noteq> file_history s \<longrightarrow>
       (\<exists>file_data. file_history s' = AList.update fp file_data (file_history s)
          \<and> file_id file_data = file_counter s'
          \<and> (\<forall>old\<in>set (map snd (file_history s)). file_id old < file_id file_data)))
    \<and> (distinct (file_ids (file_history s)) \<longrightarrow> distinct (file_ids (file_history s')))"
  proof cases
    case kept
    then have "file_history s' = file_history s" "file_counter s \<le> file_counter s'"
      by (simp_all add: kept_def)
    with old show ?thesis by (auto simp: ids_bounded_def list_all_iff)
  next
    case recorded
    define d where "d = \<lparr>hash = md5 E content, send_success = True, encrypted = ENABLE_ENCRYPTION (cfg E),
          encryption_algorithm = (if ENABLE_ENCRYPTION (cfg E) then ''AES'' else ''None''),
          file_id = file_counter s', file_size = length content, processed_size = sz\<rparr>"
    from recorded have h: "file_history s' = AList.update fp d (file_history s)"
      and c: "file_counter s < file_counter s'"
      by (simp_all add: recorded_as_def d_def)
    have id: "file_id d = file_counter s'" by (simp add: d_def)
    from old c have lt: "\<forall>old\<in>set (map snd (file_history s)). file_id old < file_id d"
      by (auto simp: id)
    have b: "ids_bounded s'"
      unfolding ids_bounded_def list_all_iff h
      using set_update_values [of fp d "file_history s"] old c id by fastforce
    have di: "distinct (file_ids (file_history s'))" if "distinct (file_ids (file_history s))"
      unfolding h using that lt by (intro distinct_file_ids_update) auto
    have "\<exists>file_data. file_history s' = AList.update fp file_data (file_history s)
          \<and> file_id file_data = file_counter s'
          \<and> (\<forall>old\<in>set (map snd (file_history s)). file_id old < file_id file_data)"
      using h id lt by (intro exI [of _ d]) simp
    with b c di show ?thesis by simp
  qed
  then show "ids_bounded s'" "file_counter s \<le> file_counter s'"
    "file_history s' \<noteq> file_history s \<Longrightarrow>
       \<exists>file_data. file_history s' = AList.update fp file_data (file_history s)
          \<and> file_id file_data = file_counter s'
          \<and> (\<forall>old\<in>set (map snd (file_history s)). file_id old < file_id file_data)"
    "distinct (file_ids (file_history s)) \<Longrightarrow> distinct (file_ids (file_history s'))"
    by auto
qed


lemma process_files_ids:
  assumes "process_files E ps s = Some (r, s')" and "ids_bounded s"
  shows "ids_bounded s' \<and> file_counter s \<le> file_counter s'
       \<and> (distinct (file_ids (file_history s)) \<longrightarrow> distinct (file_ids (file_history s')))"
  using assms
proof (induction ps arbitrary: s)
  case Nil
  then show ?case by simp
next
  case (Cons p ps)
  from Cons.prems(1) obtain r1 s1 where p: "process_file E p s = Some (r1, s1)"
    by (cases "process_file E p s") auto
  note step = process_file_ids [OF p Cons.prems(2)]
  show ?case
  proof (cases r1)
    case (Inl e)
    with Cons.prems(1) p have "s' = s1" by simp
    with step show ?thesis by simp
  next
    case (Inr u)
    with Cons.prems(1) p have "process_files E ps s1 = Some (r, s')" by simp
    from Cons.IH [OF this step(1)] step show ?thesis by auto
  qed
qed

lemma cycle_ids:
  assumes "cycle E ps s = Some s'" and "ids_bounded s"
  shows "ids_bounded s' \<and> file_counter s \<le> file_counter s'
       \<and> (distinct (file_ids (file_history s)) \<longrightarrow> distinct (file_ids (file_history s')))"
proof -
  from assms(1) obtain r s1 where p: "process_files E ps s = Some (r, s1)"
    and s': "s' = s1\<lparr>sleeps := sleeps s1 @ [CHECK_INTERVAL (cfg E)]\<rparr>"
    by (cases "process_files E ps s") (auto simp: cycle_def split: sum.splits)
  from process_files_ids [OF p assms(2)] show ?thesis
    by (simp add: s' ids_bounded_def)
qed

lemma cycles_ids:
  assumes "cycles E scans s = Some s'" and "ids_bounded s"
  shows "ids_bounded s' \<and> file_counter s \<le> file_counter s'
       \<and> (distinct (file_ids (file_history s)) \<longrightarrow> distinct (file_ids (file_history s')))"
  using assms
proof (induction scans arbitrary: s)
  case Nil
  then show ?case by simp
next
  case (Cons ps scans)
  from Cons.prems(1) obtain s1 where c: "cycle E ps s = Some s1" and r: "cycles E scans s1 = Some s'"
    by (cases "cycle E ps s") auto
  note step = cycle_ids [OF c Cons.prems(2)]
  from Cons.IH [OF r] step show ?case by auto
qed

text \<open>The loop over the files of one scan.\<close>

lemma process_files_append_raise:
  assumes "process_files E before s = Some (Inr (), s1)"
    and "process_file E bad s1 = Some (Inl e, s2)"
  shows "process_files E (before @ bad # rest) s = Some (Inl e, s2)"
  using assms
proof (induction before arbitrary: s)
  case Nil
  then show ?case by simp
next
  case (Cons p ps)
  from Cons.prems(1) obtain r0 s0 where p: "process_file E p s = Some (r0, s0)"
    by (cases "process_file E p s") auto
  show ?case
  proof (cases r0)
    case (Inl e0)
    with Cons.prems(1) p show ?thesis by simp
  next
    case (Inr u)
    with Cons.prems(1) p have "process_files E ps s0 = Some (Inr (), s1)" by simp
    from Cons.IH [OF this Cons.prems(2)] p Inr show ?thesis by simp
  qed
qed

text \<open>The instructions sent after the last part.\<close>

lemma send_reassembly_instructions_messages:
  assumes "send_reassembly_instructions E bn n s = (Inr (), s')"
  shows "messages s' = messages s @ instructions_sent E bn n (next_message_id s)"
  using assms
  by (auto simp: send_reassembly_instructions_def bot_send_message_def instructions_sent_def Let_def
      split: if_splits)

lemma remove_messages: "remove p s = Inr s' \<Longrightarrow> messages s' = messages s"
  by (auto simp: remove_def split: option.splits)

lemma split_in_temp_dir_instructions:
  assumes "split_in_temp_dir E fp skip (basename fp) td s = Some (Inr True, s')"
  shows "\<exists>m. messages s'
         = messages s @ instructions_sent E (basename fp) (Suc (length (delivered (new_calls s s')))) m"
proof -
  define bn where "bn = basename fp"
  define P where "P = MAX_FILE_SIZE (cfg E)"
  note a = assms [folded bn_def]
  from a obtain zp s1 total A m s2 s3 where
    cz: "create_zip_archive E fp bn td skip s = (Inr zp, s1)"
    and sp: "send_parts E td bn P total A 1 s1 = Some (Inr (True, m), s2)"
    and sri: "send_reassembly_instructions E bn m s2 = (Inr (), s3)"
    and s': "s' = s3 \<or> remove zp s3 = Inr s'"
    unfolding split_in_temp_dir_def P_def
    by (auto simp: Let_def split: prod.splits sum.splits option.splits if_splits)
  note z1 = create_zip_archive_Inr [OF cz [unfolded bn_def]]
  note ps = send_parts_summary [OF sp, unfolded parts_summary_def, simplified]
  from ps have m: "m = Suc (length (chunks P A))" and ms: "messages s2 = messages s1"
    and d: "delivered (new_calls s1 s2) = map (part_document td bn total) (zip [1..<m] (chunks P A))"
    by simp_all
  have len: "length (delivered (new_calls s1 s2)) = length (chunks P A)"
    unfolding d by (simp add: m del: upt_Suc)
  have d1: "documents s1 = documents s" by (rule z1(1))
  have "documents s' = documents s2"
    using s' send_reassembly_instructions_fields(1) [OF sri] by (auto simp: remove_fields)
  then have n: "new_calls s s' = new_calls s1 s2" by (simp add: new_calls_def d1)
  have "messages s' = messages s3"
    using s' by (auto simp: remove_messages)
  then have "messages s' = messages s @ instructions_sent E (basename fp)
               (Suc (length (delivered (new_calls s s')))) (next_message_id s2)"
    by (simp add: send_reassembly_instructions_messages [OF sri] ms z1 n len m bn_def)
  then show ?thesis by (rule exI)
qed

lemma split_and_send_zip_instructions:
  assumes "split_and_send_zip E fp skip s = Some (Inr (True, sz), s')"
  shows "\<exists>m. messages s'
         = messages s @ instructions_sent E (basename fp) (Suc (length (delivered (new_calls s s')))) m"
proof -
  define td where "td = tempdir_name (temp_dirs s)"
  define s1 where "s1 = snd (mkdtemp s)"
  have mk: "mkdtemp s = (td, s1)" by (simp add: td_def s1_def mkdtemp_def)
  have nf: "split_failed E b t \<noteq> (Inr (True, sz), s')" for b t
    using split_failed_fields(7) [of E b t "Inr (True, sz)" s'] by auto
  from assms mk nf obtain s2 where
    body: "split_in_temp_dir E fp skip (basename fp) td s1 = Some (Inr True, s2)"
    and s': "s' = cleanup td s2"
    by (auto simp: split_and_send_zip_def Let_def split: sum.splits option.splits if_splits prod.splits)
  have n: "new_calls s (cleanup td s2) = new_calls s1 s2" by (simp add: new_calls_def s1_def)
  have m: "messages s1 = messages s" by (simp add: s1_def)
  from split_in_temp_dir_instructions [OF body] show ?thesis
    unfolding s' n by (simp add: m)
qed

text \<open>
  Every function of the pipeline returns: with a value or with an exception, never
  \<open>None\<close>.
\<close>

lemma send_file_not_None [simp]: "send_file E fp cap pn tp nested s \<noteq> None"
  using send_file_returns [of E fp cap pn tp nested s] by auto

lemma send_parts_not_None [simp]: "send_parts E td bn cs tp rest n s \<noteq> None"
proof (induction "length rest" arbitrary: rest n s rule: less_induct)
  case less
  define name where "name = join td (bn @ ''.'' @ fmt_03d n)"
  define cap where "cap = ''Part '' @ str_nat n @ '' of '' @ bn"
  define s1 where "s1 = write_file name (take cs rest) s"
  note unfold = send_parts_unfold [of E td bn cs tp rest n s, folded name_def cap_def, folded s1_def]
  show ?case
  proof (cases "take cs rest = []")
    case True
    then show ?thesis by (simp add: unfold)
  next
    case False
    then have shorter: "length (drop cs rest) < length rest" by (cases rest) auto
    obtain r s2 where sf: "send_file E name cap (Some n) (Some tp) 0 s1 = Some (r, s2)"
      using send_file_returns [of E name cap "Some n" "Some tp" 0 s1] by auto
    show ?thesis
    proof (cases r)
      case (Inl e)
      with False sf show ?thesis by (simp add: unfold)
    next
      case (Inr success)
      with False sf less.hyps [OF shorter] show ?thesis by (simp add: unfold)
    qed
  qed
qed

lemma split_in_temp_dir_not_None [simp]: "split_in_temp_dir E fp skip bn td s \<noteq> None"
  by (auto simp: split_in_temp_dir_def Let_def split: prod.splits sum.splits option.splits)

lemma split_and_send_zip_returns: "\<exists>y. split_and_send_zip E fp skip s = Some y"
  by (auto simp: split_and_send_zip_def Let_def split: prod.splits sum.splits option.splits)

lemma split_and_send_zip_not_None [simp]: "split_and_send_zip E fp skip s \<noteq> None"
  using split_and_send_zip_returns [of E fp skip s] by auto

lemma deliver_not_None [simp]: "deliver E sp bn s \<noteq> None"
proof (cases "getsize s sp")
  case (Inl e)
  then show ?thesis by (simp add: deliver_def)
next
  case (Inr artifact_size)
  show ?thesis
  proof (cases "MAX_FILE_SIZE (cfg E) < artifact_size")
    case True
    with Inr show ?thesis
      using split_and_send_zip_returns [of E sp True s] split_and_send_zip_returns [of E sp False s]
      by (auto simp: deliver_def)
  next
    case False
    with Inr show ?thesis
      by (auto simp: deliver_def split: prod.splits sum.splits option.splits)
  qed
qed

lemma process_in_temp_dir_not_None [simp]: "process_in_temp_dir E fp h sz bn td s \<noteq> None"
  by (auto simp: process_in_temp_dir_def split: prod.splits sum.splits option.splits)

lemma process_file_returns: "\<exists>y. process_file E fp s = Some y"
  by (auto simp: process_file_def Let_def split: prod.splits sum.splits option.splits)

lemma process_files_returns: "\<exists>y. process_files E sorted_files s = Some y"
proof (induction sorted_files arbitrary: s)
  case Nil
  show ?case by simp
next
  case (Cons fp sorted_files)
  from process_file_returns [of E fp s] obtain r s1 where "process_file E fp s = Some (r, s1)"
    by auto
  with Cons [of s1] show ?case by (cases r) auto
qed

lemma cycle_returns: "\<exists>s'. cycle E sorted_files s = Some s'"
  using process_files_returns [of E sorted_files s]
  by (auto simp: cycle_def split: sum.splits)

lemma cycles_returns: "\<exists>s'. cycles E scans s = Some s'"
proof (induction scans arbitrary: s)
  case Nil
  show ?case by simp
next
  case (Cons sorted_files scans)
  from cycle_returns [of E sorted_files s] obtain s1 where "cycle E sorted_files s = Some s1" ..
  with Cons [of s1] show ?case by simp
qed

lemma main_returns: "\<exists>s'. main E scans s = Some s'"
  by (simp add: main_def cycles_returns)

subsection \<open>Rejection of the configuration\<close>

text \<open>
  Claim C7. With encryption enabled and the compression level \<^verbatim>\<open>none\<close> the program
  ends with \<^verbatim>\<open>ValueError\<close> in the configuration check, and the world is as it was: no
  file has been read, no archive written and nothing sent. For every other
  configuration the check passes.
\<close>

theorem configuration_rejected_at_startup:
  "(ENABLE_ENCRYPTION (cfg E) \<and> COMPRESSION_LEVEL (cfg E) = ''none''
      \<longrightarrow> (\<exists>msg. bot E scans s = Some (Inl (ValueError msg), s)))
   \<and> (\<not> (ENABLE_ENCRYPTION (cfg E) \<and> COMPRESSION_LEVEL (cfg E) = ''none'')
      \<longrightarrow> validate_configuration (cfg E) = Inr ()
          \<and> bot E scans s = (case main E scans s of None \<Rightarrow> None | Some s1 \<Rightarrow> Some (Inr (), s1)))"
  by (simp add: bot_def validate_configuration_def)

theorem configuration_rejected_at_startup_witness:
  "(\<exists>msg. bot env_encrypt_none [[''/data/a.txt'']] state0 = Some (Inl (ValueError msg), state0))
   \<and> validate_configuration (cfg env0) = Inr ()"
  using configuration_rejected_at_startup [of env_encrypt_none "[[''/data/a.txt'']]" state0]
    configuration_rejected_at_startup [of env0 "[]" state0]
  by (simp add: env_encrypt_none_def env0_def settings0_def)

subsection \<open>Flood control\<close>

text \<open>
  Claim C4. The transport answers the first call of \<^verbatim>\<open>send_document\<close> with
  \<^verbatim>\<open>RetryAfter\<close>, the flood-control signal of the library, here with a delay of five
  seconds, and would deliver the second call. An exception of this class has no
  attribute \<^verbatim>\<open>response\<close>, so the test of line 135 fails and \<^verbatim>\<open>send_file\<close> takes the
  branch of line 140: it made one call only, it did not sleep, it sent the notice of a
  failed send and tracked it, and its result is \<^verbatim>\<open>False\<close>. One turn of the loop of
  \<^verbatim>\<open>main\<close> over the same file ends with nothing delivered and no record in the history.
  Against an exception of the shape that line 135 tests for, the same call sleeps five
  seconds, sends again and returns \<^verbatim>\<open>True\<close>.
\<close>

theorem flood_control_signal_is_terminal:
  "map_option
     (\<lambda>(r, s). (r, map reply_of (documents s), sleeps s, messages s, error_messages s))
     (send_file env_flood ''/data/a.txt'' ''File'' None None 0 state0)
   = Some (Inr False, [RetryAfter 5], [],
           [(100, ''Error sending file: /data/a.txt. Check logs.'', Some 0)],
           [(''/data/a.txt'', 0)])
   \<and> map_option
       (\<lambda>s. (map reply_of (documents s), delivered (documents s), sleeps s, file_history s))
       (cycle env_flood [''/data/a.txt''] state0)
     = Some ([RetryAfter 5], [], [60], [])
   \<and> map_option
       (\<lambda>(r, s). (r, map reply_of (documents s), sleeps s, messages s, error_messages s))
       (send_file env_response_429 ''/data/a.txt'' ''File'' None None 0 state0)
     = Some (Inr True, [FloodControl (Seconds 5), Delivered], [5], [], [])"
  by (intro conjI; code_simp)

subsection \<open>Error notices\<close>


subsection \<open>Deduplication by content\<close>

text \<open>
  Claim C2. When the hash computed for a file is the stored hash of some record of the
  history, whatever the path of that record, \<^verbatim>\<open>process_file\<close> returns with the state
  as it was: no temporary directory, no archive, no send, no change of the history.
\<close>

theorem global_dedup_skips:
  assumes "calculate_md5 E s file_path = Inr file_hash"
    and "(p, file_data) \<in> set (file_history s)"
    and "hash file_data = file_hash"
  shows "process_file E file_path s = Some (Inr (), s)"
proof -
  from assms(1) obtain b where b: "read_file s file_path = Inr b"
    by (auto simp: calculate_md5_def split: sum.splits)
  then have g: "getsize s file_path = Inr (length b)"
    by (auto simp: read_file_def getsize_def split: option.splits)
  have h: "hash_in_history (file_history s) file_hash"
    using assms(2,3) by (auto simp: hash_in_history_iff)
  show ?thesis
    by (simp add: process_file_def assms(1) g h)
qed

theorem global_dedup_skips_witness:
  "process_file env0 ''/data/a.txt'' state_sent = Some (Inr (), state_sent)"
proof -
  have 1: "calculate_md5 env0 state_sent ''/data/a.txt'' = Inr ''3''"
    by (simp add: calculate_md5_def read_file_def state_sent_def state0_def env0_def
        str_nat.simps digit_char_def)
  have 2: "(''/data/old.txt'', old_record) \<in> set (file_history state_sent)"
    by (simp add: state_sent_def)
  have 3: "hash old_record = ''3''" by (simp add: old_record_def)
  show ?thesis by (rule global_dedup_skips [OF 1 2 3])
qed

subsection \<open>The second check of the history\<close>

text \<open>
  Claim C10. Once the global check of line 282 has let a file through, the condition
  of line 305 (the path has no record, or its record has another hash) holds when it is
  evaluated, after the artifact is built from any state with that history; so the
  branch of \<^verbatim>\<open>process_file\<close> that builds an archive and sends nothing is never taken.
\<close>

theorem per_path_check_always_true:
  assumes "\<not> hash_in_history (file_history s) file_hash"
    and "build_artifact E file_path base_name temp_dir s = (r, s1)"
  shows "new_or_modified (file_history s1) file_path file_hash"
proof -
  have "file_history s1 = file_history s"
    by (rule build_artifact_file_history [OF assms(2)])
  moreover have "hash file_data \<noteq> file_hash" if "map_of (file_history s) file_path = Some file_data"
    for file_data
    using assms(1) map_of_SomeD [OF that] by (auto simp: hash_in_history_iff)
  ultimately show ?thesis
    by (simp add: new_or_modified_def split: option.split)
qed

theorem per_path_check_always_true_witness:
  "new_or_modified (file_history state_sent) ''/data/old.txt'' ''5''"
proof -
  have 1: "\<not> hash_in_history (file_history state_sent) ''5''"
    by (simp add: hash_in_history_def state_sent_def old_record_def)
  have 2: "build_artifact env0 ''/data/old.txt'' ''old.txt'' ''/tmp/tmp0'' state_sent
           = (Inr ''/data/old.txt'', state_sent)"
    by (simp add: build_artifact_def env0_def settings0_def)
  show ?thesis by (rule per_path_check_always_true [OF 1 2])
qed

subsection \<open>Splitting and reassembly\<close>

text \<open>
  Claim C3. Whenever \<^verbatim>\<open>split_and_send_zip\<close> reports success for a file, the documents
  it has delivered are exactly \<open>ceil(S/P)\<close> parts, where \<open>S\<close> is the size of what it
  splits (the archive it builds, or the file as it is) and \<open>P\<close> the part size; part
  \<open>i\<close> holds the bytes from \<open>(i - 1) * P\<close> on, at most \<open>P\<close> of them, is named after
  the file with the index in three digits, and carries the same total in its caption;
  the parts in order, one after the other, are the bytes that were split. And the
  function does report success when the file can be read, the part size is positive,
  the transport delivers every document and accepts every message and deletion, the
  interpreter allows a call of \<^verbatim>\<open>send_file\<close>, and the archive, if one is built with
  encryption, has a password.
\<close>

theorem split_round_trip:
  "(split_and_send_zip E fp skip s = Some (Inr (True, sz), s') \<longrightarrow>
      (\<exists>content. read_file s fp = Inr content \<and> 0 < MAX_FILE_SIZE (cfg E) \<and>
         (let A = split_content E fp skip content;
              P = MAX_FILE_SIZE (cfg E);
              total = (length A + P - 1) div P;
              sent = delivered (new_calls s s')
          in length sent = total
             \<and> concat (map (\<lambda>d. fst (snd d)) sent) = A
             \<and> (\<forall>i<total. sent ! i =
                   (join (tempdir_name (temp_dirs s)) (basename fp @ ''.'' @ fmt_03d (i + 1)),
                    take P (drop (i * P) A),
                    escape_markdown (''Part '' @ str_nat (i + 1) @ '' of '' @ basename fp)
                      @ [CHR 0x0A, CHR 0x5C] @ ''(Part '' @ str_nat (i + 1) @ ''/'' @ str_nat total
                      @ [CHR 0x5C] @ '')'')))))
   \<and> (read_file s fp = Inr whole \<and> 0 < MAX_FILE_SIZE (cfg E)
        \<and> (\<forall>k\<ge>length (documents s). send_document E k = Delivered)
        \<and> (\<forall>k\<ge>length (deleted s). delete_message E k)
        \<and> (\<forall>k\<ge>length (messages s). send_message E k)
        \<and> 0 < recursion_limit E
        \<and> (skip \<or> COMPRESSION_LEVEL (cfg E) = ''none'' \<or> endswith (lower fp) ''.zip''
             \<or> \<not> ENABLE_ENCRYPTION (cfg E) \<or> ZIP_PASSWORD (cfg E) \<noteq> []) \<longrightarrow>
      (\<exists>s1. split_and_send_zip E fp skip s = Some (Inr (True, length whole), s1)))"
proof (intro conjI impI)
  assume a: "split_and_send_zip E fp skip s = Some (Inr (True, sz), s')"
  define P where "P = MAX_FILE_SIZE (cfg E)"
  from split_and_send_zip_summary [OF a] obtain content where
    c: "read_file s fp = Inr content" and P: "0 < P"
    and d: "delivered (new_calls s s')
            = parts_sent (tempdir_name (temp_dirs s)) (basename fp) P (split_content E fp skip content)"
    unfolding P_def by auto
  define A where "A = split_content E fp skip content"
  note d = d [folded A_def]
  have len: "length (chunks P A) = (length A + P - 1) div P"
    by (rule length_chunks [OF P])
  have 1: "length (delivered (new_calls s s')) = (length A + P - 1) div P"
    by (simp add: d length_parts_sent len)
  have 2: "concat (map (\<lambda>d. fst (snd d)) (delivered (new_calls s s'))) = A"
    by (simp add: d contents_parts_sent concat_chunks [OF P])
  have 3: "delivered (new_calls s s') ! i =
             (join (tempdir_name (temp_dirs s)) (basename fp @ ''.'' @ fmt_03d (i + 1)),
              take P (drop (i * P) A),
              escape_markdown (''Part '' @ str_nat (i + 1) @ '' of '' @ basename fp)
                @ [CHR 0x0A, CHR 0x5C] @ ''(Part '' @ str_nat (i + 1) @ ''/''
                @ str_nat ((length A + P - 1) div P) @ [CHR 0x5C] @ '')'')"
    if "i < (length A + P - 1) div P" for i
    using that nth_parts_sent [of i P A "tempdir_name (temp_dirs s)" "basename fp"]
    by (simp add: d len part_marker_def backslash_def)
  show "\<exists>content. read_file s fp = Inr content \<and> 0 < MAX_FILE_SIZE (cfg E) \<and>
         (let A = split_content E fp skip content;
              P = MAX_FILE_SIZE (cfg E);
              total = (length A + P - 1) div P;
              sent = delivered (new_calls s s')
          in length sent = total
             \<and> concat (map (\<lambda>d. fst (snd d)) sent) = A
             \<and> (\<forall>i<total. sent ! i =
                   (join (tempdir_name (temp_dirs s)) (basename fp @ ''.'' @ fmt_03d (i + 1)),
                    take P (drop (i * P) A),
                    escape_markdown (''Part '' @ str_nat (i + 1) @ '' of '' @ basename fp)
                      @ [CHR 0x0A, CHR 0x5C] @ ''(Part '' @ str_nat (i + 1) @ ''/'' @ str_nat total
                      @ [CHR 0x5C] @ '')'')))"
    unfolding Let_def P_def [symmetric] A_def [symmetric]
    using c P 1 2 3 by (intro exI [of _ content]) (simp add: A_def [symmetric])
next
  assume "read_file s fp = Inr whole \<and> 0 < MAX_FILE_SIZE (cfg E)
        \<and> (\<forall>k\<ge>length (documents s). send_document E k = Delivered)
        \<and> (\<forall>k\<ge>length (deleted s). delete_message E k)
        \<and> (\<forall>k\<ge>length (messages s). send_message E k)
        \<and> 0 < recursion_limit E
        \<and> (skip \<or> COMPRESSION_LEVEL (cfg E) = ''none'' \<or> endswith (lower fp) ''.zip''
             \<or> \<not> ENABLE_ENCRYPTION (cfg E) \<or> ZIP_PASSWORD (cfg E) \<noteq> [])"
  then show "\<exists>s1. split_and_send_zip E fp skip s = Some (Inr (True, length whole), s1)"
    using split_and_send_zip_delivers [of s fp whole E skip] by simp
qed


theorem split_round_trip_witness:
  "\<exists>s'. split_and_send_zip env0 ''/data/big.bin'' False state0 = Some (Inr (True, 10), s')
      \<and> length (delivered (new_calls state0 s')) = 3
      \<and> concat (map (\<lambda>d. fst (snd d)) (delivered (new_calls state0 s'))) = [1, 2, 3, 4, 5, 6, 7, 8, 9, 10]
      \<and> delivered (new_calls state0 s') ! 0 =
          (''/tmp/tmp0/big.bin.001'', [1, 2, 3, 4],
           ''Part 1 of big'' @ [CHR 0x5C] @ ''.bin'' @ [CHR 0x0A, CHR 0x5C] @ ''(Part 1/3'' @ [CHR 0x5C] @ '')'')
      \<and> delivered (new_calls state0 s') ! 1 =
          (''/tmp/tmp0/big.bin.002'', [5, 6, 7, 8],
           ''Part 2 of big'' @ [CHR 0x5C] @ ''.bin'' @ [CHR 0x0A, CHR 0x5C] @ ''(Part 2/3'' @ [CHR 0x5C] @ '')'')
      \<and> delivered (new_calls state0 s') ! 2 =
          (''/tmp/tmp0/big.bin.003'', [9, 10],
           ''Part 3 of big'' @ [CHR 0x5C] @ ''.bin'' @ [CHR 0x0A, CHR 0x5C] @ ''(Part 3/3'' @ [CHR 0x5C] @ '')'')"
proof -
  let ?fp = "''/data/big.bin''"
  let ?A = "[1, 2, 3, 4, 5, 6, 7, 8, 9, 10] :: bytes"
  have r: "read_file state0 ?fp = Inr ?A"
    by (simp add: read_file_def state0_def)
  have P: "MAX_FILE_SIZE (cfg env0) = 4" by (simp add: env0_def settings0_def)
  have t: "\<forall>k\<ge>length (documents state0). send_document env0 k = Delivered"
    "\<forall>k\<ge>length (deleted state0). delete_message env0 k"
    "\<forall>k\<ge>length (messages state0). send_message env0 k"
    "0 < recursion_limit env0" "COMPRESSION_LEVEL (cfg env0) = ''none''"
    by (simp_all add: env0_def settings0_def)
  have sc: "split_content env0 ?fp False c = c" for c
    by (simp add: split_content_def env0_def settings0_def)
  have td: "tempdir_name (temp_dirs state0) = ''/tmp/tmp0''"
    by (simp add: tempdir_name_def state0_def str_nat.simps digit_char_def)
  have bn: "basename ?fp = ''big.bin''" by (simp add: basename_def)
  have e0: "(join ''/tmp/tmp0'' (''big.bin'' @ ''.'' @ fmt_03d (0 + 1)), take 4 (drop (0 * 4) ?A),
           escape_markdown (''Part '' @ str_nat (0 + 1) @ '' of '' @ ''big.bin'')
             @ [CHR 0x0A, CHR 0x5C] @ ''(Part '' @ str_nat (0 + 1) @ ''/'' @ str_nat 3 @ [CHR 0x5C] @ '')'')
         = (''/tmp/tmp0/big.bin.001'', [1, 2, 3, 4],
           ''Part 1 of big'' @ [CHR 0x5C] @ ''.bin'' @ [CHR 0x0A, CHR 0x5C] @ ''(Part 1/3'' @ [CHR 0x5C] @ '')'')"
    by (simp add: join_def fmt_03d_def str_nat.simps digit_char_def numeral_2_eq_2
        escape_markdown_def escape_chars_def backslash_def)
  have e1: "(join ''/tmp/tmp0'' (''big.bin'' @ ''.'' @ fmt_03d (1 + 1)), take 4 (drop (1 * 4) ?A),
           escape_markdown (''Part '' @ str_nat (1 + 1) @ '' of '' @ ''big.bin'')
             @ [CHR 0x0A, CHR 0x5C] @ ''(Part '' @ str_nat (1 + 1) @ ''/'' @ str_nat 3 @ [CHR 0x5C] @ '')'')
         = (''/tmp/tmp0/big.bin.002'', [5, 6, 7, 8],
           ''Part 2 of big'' @ [CHR 0x5C] @ ''.bin'' @ [CHR 0x0A, CHR 0x5C] @ ''(Part 2/3'' @ [CHR 0x5C] @ '')'')"
    by (simp add: join_def fmt_03d_def str_nat.simps digit_char_def numeral_2_eq_2
        escape_markdown_def escape_chars_def backslash_def)
  have e2: "(join ''/tmp/tmp0'' (''big.bin'' @ ''.'' @ fmt_03d (2 + 1)), take 4 (drop (2 * 4) ?A),
           escape_markdown (''Part '' @ str_nat (2 + 1) @ '' of '' @ ''big.bin'')
             @ [CHR 0x0A, CHR 0x5C] @ ''(Part '' @ str_nat (2 + 1) @ ''/'' @ str_nat 3 @ [CHR 0x5C] @ '')'')
         = (''/tmp/tmp0/big.bin.003'', [9, 10],
           ''Part 3 of big'' @ [CHR 0x5C] @ ''.bin'' @ [CHR 0x0A, CHR 0x5C] @ ''(Part 3/3'' @ [CHR 0x5C] @ '')'')"
    by (simp add: join_def fmt_03d_def str_nat.simps digit_char_def numeral_2_eq_2
        escape_markdown_def escape_chars_def backslash_def)
  note rt = split_round_trip [of env0 ?fp False state0 10 _ ?A]
  from rt [THEN conjunct2, THEN mp] r P t
  obtain s1 where s1: "split_and_send_zip env0 ?fp False state0 = Some (Inr (True, 10), s1)"
    by auto
  from rt [of s1, THEN conjunct1, THEN mp, OF s1]
  have all: "length (delivered (new_calls state0 s1)) = 3
      \<and> concat (map (\<lambda>d. fst (snd d)) (delivered (new_calls state0 s1))) = ?A
      \<and> (\<forall>i<3. delivered (new_calls state0 s1) ! i =
          (join ''/tmp/tmp0'' (''big.bin'' @ ''.'' @ fmt_03d (i + 1)), take 4 (drop (i * 4) ?A),
           escape_markdown (''Part '' @ str_nat (i + 1) @ '' of '' @ ''big.bin'')
             @ [CHR 0x0A, CHR 0x5C] @ ''(Part '' @ str_nat (i + 1) @ ''/'' @ str_nat 3 @ [CHR 0x5C] @ '')''))"
    unfolding r sc P td bn Let_def by simp
  then have nth: "delivered (new_calls state0 s1) ! i =
          (join ''/tmp/tmp0'' (''big.bin'' @ ''.'' @ fmt_03d (i + 1)), take 4 (drop (i * 4) ?A),
           escape_markdown (''Part '' @ str_nat (i + 1) @ '' of '' @ ''big.bin'')
             @ [CHR 0x0A, CHR 0x5C] @ ''(Part '' @ str_nat (i + 1) @ ''/'' @ str_nat 3 @ [CHR 0x5C] @ '')'')"
    if "i < 3" for i
    using that by simp
  have p0: "delivered (new_calls state0 s1) ! 0 =
          (''/tmp/tmp0/big.bin.001'', [1, 2, 3, 4],
           ''Part 1 of big'' @ [CHR 0x5C] @ ''.bin'' @ [CHR 0x0A, CHR 0x5C] @ ''(Part 1/3'' @ [CHR 0x5C] @ '')'')"
    using nth [of 0, unfolded e0] by simp
  have p1: "delivered (new_calls state0 s1) ! 1 =
          (''/tmp/tmp0/big.bin.002'', [5, 6, 7, 8],
           ''Part 2 of big'' @ [CHR 0x5C] @ ''.bin'' @ [CHR 0x0A, CHR 0x5C] @ ''(Part 2/3'' @ [CHR 0x5C] @ '')'')"
    using nth [of 1, unfolded e1] by simp
  have p2: "delivered (new_calls state0 s1) ! 2 =
          (''/tmp/tmp0/big.bin.003'', [9, 10],
           ''Part 3 of big'' @ [CHR 0x5C] @ ''.bin'' @ [CHR 0x0A, CHR 0x5C] @ ''(Part 3/3'' @ [CHR 0x5C] @ '')'')"
    using nth [of 2, unfolded e2] by simp
  from all p0 p1 p2 s1 show ?thesis by (intro exI [of _ s1]) simp
qed

subsection \<open>The history changes only after a full delivery\<close>



subsection \<open>Sequence ids\<close>

text \<open>
  Claim C8. After the history is loaded, no record has a \<^verbatim>\<open>file_id\<close> above the
  counter (line 376), and \<^verbatim>\<open>process_file\<close> keeps it so and never lowers the counter.
  When \<^verbatim>\<open>process_file\<close> changes the history, it stores one record under the path of
  the file, whose \<^verbatim>\<open>file_id\<close> is the new value of the counter and is strictly greater
  than the \<^verbatim>\<open>file_id\<close> of every record that existed. So over a whole run of \<^verbatim>\<open>main\<close>
  on a saved history with pairwise different ids, the ids stay pairwise different.
\<close>

theorem file_ids_increase:
  "ids_bounded (load_history s)
   \<and> (process_file E fp s = Some (r, s') \<and> ids_bounded s \<and> file_history s' \<noteq> file_history s \<longrightarrow>
        (\<exists>file_data. file_history s' = AList.update fp file_data (file_history s)
            \<and> file_id file_data = file_counter s'
            \<and> (\<forall>old\<in>set (map snd (file_history s)). file_id old < file_id file_data)))
   \<and> (process_file E fp s = Some (r, s') \<and> ids_bounded s \<longrightarrow>
        ids_bounded s' \<and> file_counter s \<le> file_counter s')
   \<and> (main E scans s = Some s2 \<and> distinct (file_ids (saved_history s)) \<longrightarrow>
        ids_bounded s2 \<and> distinct (file_ids (file_history s2)))"
proof (intro conjI impI)
  show "ids_bounded (load_history s)" by (rule ids_bounded_load_history)
next
  assume "process_file E fp s = Some (r, s') \<and> ids_bounded s \<and> file_history s' \<noteq> file_history s"
  then show "\<exists>file_data. file_history s' = AList.update fp file_data (file_history s)
            \<and> file_id file_data = file_counter s'
            \<and> (\<forall>old\<in>set (map snd (file_history s)). file_id old < file_id file_data)"
    using process_file_ids(3) [of E fp s r s'] by simp
next
  assume a: "process_file E fp s = Some (r, s') \<and> ids_bounded s"
  then show "ids_bounded s'" using process_file_ids(1) [of E fp s r s'] by simp
  from a show "file_counter s \<le> file_counter s'" using process_file_ids(2) [of E fp s r s'] by simp
next
  assume a: "main E scans s = Some s2 \<and> distinct (file_ids (saved_history s))"
  then have c: "cycles E scans (load_history s) = Some s2" by (simp add: main_def)
  have d: "distinct (file_ids (file_history (load_history s)))"
    using a by (simp add: load_history_def)
  from cycles_ids [OF c ids_bounded_load_history] d
  show "ids_bounded s2" "distinct (file_ids (file_history s2))" by simp_all
qed

theorem file_ids_increase_witness:
  "ids_bounded (load_history state_sent)
   \<and> (\<exists>s1. process_file env0 ''/data/b.txt'' state_sent = Some (Inr (), s1)
         \<and> file_ids (file_history s1) = [7, 8] \<and> file_counter s1 = 8 \<and> ids_bounded s1
         \<and> (\<exists>file_data. map_of (file_history s1) ''/data/b.txt'' = Some file_data
                \<and> file_id file_data = 8))
   \<and> (\<exists>s2. main env0 [[''/data/b.txt'', ''/data/big.bin'']] state_sent = Some s2
         \<and> file_ids (file_history s2) = [7, 8, 12] \<and> ids_bounded s2
         \<and> distinct (file_ids (file_history s2)))"
proof (intro conjI)
  show "ids_bounded (load_history state_sent)"
    using file_ids_increase [of state_sent] by simp
next
  let ?p = "process_file env0 ''/data/b.txt'' state_sent"
  have "map_option fst ?p = Some (Inr ())" by code_simp
  then obtain s1 where s1: "?p = Some (Inr (), s1)" by auto
  have "map_option (\<lambda>(r, s). (file_ids (file_history s), file_counter s)) ?p = Some ([7, 8], 8)"
    by code_simp
  with s1 have v: "file_ids (file_history s1) = [7, 8]" "file_counter s1 = 8" by simp_all
  have b: "ids_bounded state_sent" by code_simp
  have ne: "file_history s1 \<noteq> file_history state_sent"
  proof
    assume "file_history s1 = file_history state_sent"
    then have "file_ids (file_history s1) = file_ids (file_history state_sent)" by simp
    then show False unfolding v by (simp add: state_sent_def file_ids_def)
  qed
  note t = file_ids_increase [of state_sent env0 "''/data/b.txt''" "Inr ()" s1]
  from t [THEN conjunct2, THEN conjunct1, THEN mp] s1 b ne
  obtain file_data where "file_history s1 = AList.update ''/data/b.txt'' file_data (file_history state_sent)"
    and "file_id file_data = file_counter s1" by auto
  then have n: "\<exists>file_data. map_of (file_history s1) ''/data/b.txt'' = Some file_data
                \<and> file_id file_data = 8"
    by (intro exI [of _ file_data]) (simp add: update_conv' v)
  from t [THEN conjunct2, THEN conjunct2, THEN conjunct1, THEN mp] s1 b
  have "ids_bounded s1" by simp
  with s1 v n show "\<exists>s1. ?p = Some (Inr (), s1)
         \<and> file_ids (file_history s1) = [7, 8] \<and> file_counter s1 = 8 \<and> ids_bounded s1
         \<and> (\<exists>file_data. map_of (file_history s1) ''/data/b.txt'' = Some file_data
                \<and> file_id file_data = 8)"
    by (intro exI [of _ s1]) simp
next
  let ?m = "main env0 [[''/data/b.txt'', ''/data/big.bin'']] state_sent"
  have "map_option (\<lambda>s. file_ids (file_history s)) ?m = Some [7, 8, 12]" by code_simp
  then obtain s2 where s2: "?m = Some s2" and v: "file_ids (file_history s2) = [7, 8, 12]" by auto
  have d: "distinct (file_ids (saved_history state_sent))" by code_simp
  from file_ids_increase [of state_sent env0 _ _ _ "[[''/data/b.txt'', ''/data/big.bin'']]" s2,
      THEN conjunct2, THEN conjunct2, THEN conjunct2, THEN mp] s2 d
  have "ids_bounded s2 \<and> distinct (file_ids (file_history s2))" by simp
  with s2 v show "\<exists>s2. ?m = Some s2
         \<and> file_ids (file_history s2) = [7, 8, 12] \<and> ids_bounded s2
         \<and> distinct (file_ids (file_history s2))"
    by (intro exI [of _ s2]) simp
qed

subsection \<open>An exception in the pipeline of one file\<close>

text \<open>
  Claim C5 says that an exception escaping the pipeline of one file is caught at the
  file boundary and that the same cycle goes on with the remaining files. The handler
  of \<^verbatim>\<open>main\<close> encloses the whole turn of the loop, not one file. With a path whose
  file is gone in front of a file that is there, the cycle ends after the first path,
  having sent nothing, although the second file alone would have been sent.
\<close>

theorem cycle_stops_at_missing_file:
  "cycle env0 [''/data/gone.txt'', ''/data/a.txt''] state0 = Some (state0\<lparr>sleeps := [60]\<rparr>)
   \<and> cycle env0 [''/data/a.txt''] state0 \<noteq> Some (state0\<lparr>sleeps := [60]\<rparr>)"
  by code_simp

text \<open>
  Claim C5 as amended. When the files before \<open>bad\<close> are processed without exception
  and \<^verbatim>\<open>process_file\<close> raises on \<open>bad\<close>, the turn of the loop ends there: the files
  after \<open>bad\<close> are not processed in this cycle, whatever they are; the scheduler sleeps
  for the check interval and goes on with the next scan from the state the exception
  left. The scheduling loop itself is never aborted.
\<close>

theorem exception_ends_the_cycle_only:
  assumes "process_files E before s = Some (Inr (), s1)"
    and "process_file E bad s1 = Some (Inl e, s2)"
  shows "cycle E (before @ bad # rest) s = Some (s2\<lparr>sleeps := sleeps s2 @ [CHECK_INTERVAL (cfg E)]\<rparr>)
       \<and> cycles E ((before @ bad # rest) # scans) s
           = cycles E scans (s2\<lparr>sleeps := sleeps s2 @ [CHECK_INTERVAL (cfg E)]\<rparr>)"
proof -
  have "cycle E (before @ bad # rest) s = Some (s2\<lparr>sleeps := sleeps s2 @ [CHECK_INTERVAL (cfg E)]\<rparr>)"
    by (simp add: cycle_def process_files_append_raise [OF assms])
  then show ?thesis by simp
qed

theorem exception_ends_the_cycle_only_witness:
  "cycle env0 ([] @ ''/data/gone.txt'' # [''/data/a.txt'']) state0
     = Some (state0\<lparr>sleeps := sleeps state0 @ [CHECK_INTERVAL (cfg env0)]\<rparr>)
   \<and> cycles env0 (([] @ ''/data/gone.txt'' # [''/data/a.txt'']) # [[''/data/b.txt'']]) state0
     = cycles env0 [[''/data/b.txt'']] (state0\<lparr>sleeps := sleeps state0 @ [CHECK_INTERVAL (cfg env0)]\<rparr>)"
proof -
  have 1: "process_files env0 [] state0 = Some (Inr (), state0)" by simp
  have 2: "process_file env0 ''/data/gone.txt'' state0
           = Some (Inl (FileNotFoundError ''/data/gone.txt''), state0)"
    by (simp add: process_file_def calculate_md5_def read_file_def state0_def)
  show ?thesis by (rule exception_ends_the_cycle_only [OF 1 2])
qed

subsection \<open>The instructions after a split\<close>

text \<open>
  Claim C6. The scenario of the claim: a file of 100 MiB, compression \<^verbatim>\<open>default\<close>, an
  archive of 60 MiB and the part size of 45 MiB. \<^verbatim>\<open>process_file\<close> returns normally and
  delivers two documents, \<^verbatim>\<open>video.mp4.zip.001\<close> with 45 MiB and \<^verbatim>\<open>video.mp4.zip.002\<close>
  with 15 MiB, and then one message with the instructions. The text of that message
  (lines 228 to 241) puts \<^verbatim>\<open>.zip.*\<close> behind the name of the file that was split, which
  here is the archive \<^verbatim>\<open>video.mp4.zip\<close>: it tells the reader to join the files
  \<^verbatim>\<open>video.mp4.zip.zip.*\<close>, a pattern that neither of the two parts matches.
\<close>

theorem instructions_name_other_files:
  "\<exists>s'. process_file env_scenario ''/data/video.mp4'' state_scenario = Some (Inr (), s')
      \<and> map (\<lambda>(p, b, c). (p, length b)) (delivered (new_calls state_scenario s'))
          = [(''/tmp/tmp1/video.mp4.zip.001'', 45 * 1024 * 1024),
             (''/tmp/tmp1/video.mp4.zip.002'', 15 * 1024 * 1024)]
      \<and> map (\<lambda>(chat, text, m). text) (messages s')
          = [replicate 3 (CHR 0x60) @ [CHR 0x0A]
             @ ''To reassemble the file:'' @ [CHR 0x0A]
             @ ''1. Download all parts (2 in total)'' @ [CHR 0x0A]
             @ ''2. Use one of the following commands:'' @ [CHR 0x0A]
             @ ''   # Windows'' @ [CHR 0x0A]
             @ ''   copy /b video.mp4.zip.zip.* video.mp4.zip.zip'' @ [CHR 0x0A]
             @ [CHR 0x0A]
             @ ''   # Linux/Mac'' @ [CHR 0x0A]
             @ ''   cat video.mp4.zip.zip.* > video.mp4.zip.zip'' @ [CHR 0x0A]
             @ ''3. Extract video.mp4.zip.zip'' @ [CHR 0x0A]
             @ [CHR 0x0A]
             @ ''The ZIP file is not encrypted.'' @ [CHR 0x0A]
             @ replicate 3 (CHR 0x60)]
      \<and> \<not> prefix ''video.mp4.zip.zip.'' ''video.mp4.zip.001''
      \<and> \<not> prefix ''video.mp4.zip.zip.'' ''video.mp4.zip.002''"
proof -
  define E where "E = env_scenario"
  define fp where "fp = ''/data/video.mp4''"
  define zp where "zp = ''/tmp/tmp0/video.mp4.zip''"
  define F :: bytes where "F = replicate (100 * 1024 * 1024) 0"
  define Z :: bytes where "Z = replicate (60 * 1024 * 1024) 80"
  define P :: nat where "P = 45 * 1024 * 1024"
  have lZ: "length Z = 60 * 1024 * 1024" and lF: "length F = 100 * 1024 * 1024"
    by (simp_all add: Z_def F_def)
  have cfg: "MAX_FILE_SIZE (cfg E) = P" "COMPRESSION_LEVEL (cfg E) = ''default''"
    "\<not> ENABLE_ENCRYPTION (cfg E)" "ALLOWED_EXTENSIONS (cfg E) = []"
    "FORWARD_CHAT_ID (cfg E) = 0" "CHAT_ID (cfg E) = 100"
    "zip_write E a b c d = Z" "0 < recursion_limit E"
    "send_document E k = Delivered" "delete_message E k" "send_message E k"
    for a b c d k
    by (simp_all add: E_def env_scenario_def env0_def settings0_def MAX_FILE_SIZE_bot_def P_def Z_def)
  define s1 where "s1 = snd (mkdtemp state_scenario)"
  define sA where "sA = write_file zp Z s1"
  have mk: "mkdtemp state_scenario = (''/tmp/tmp0'', s1)"
    by (simp add: s1_def mkdtemp_def tempdir_name_def state_scenario_def state0_def
        str_nat.simps digit_char_def)
  have f0: "files state_scenario = [(fp, F)]" "file_history state_scenario = []"
    by (simp_all add: state_scenario_def state0_def fp_def F_def)
  have f1: "files s1 = [(fp, F)]" "file_history s1 = []" "temp_dirs s1 = 1" "messages s1 = []"
    "documents s1 = []" "deleted s1 = []"
    by (simp_all add: s1_def mkdtemp_def state_scenario_def state0_def fp_def F_def)
  have bn: "basename fp = ''video.mp4''" "basename zp = ''video.mp4.zip''"
    by (simp_all add: basename_def fp_def zp_def)
  have low: "\<not> endswith (lower fp) ''.zip''" "endswith (lower zp) ''.zip''"
    by (simp_all add: endswith_def lower_def lower_char_def fp_def zp_def suffix_def)
  have jn: "join ''/tmp/tmp0'' (''video.mp4'' @ ''.zip'') = zp"
    by (simp add: join_def zp_def)
  have ba: "build_artifact E fp ''video.mp4'' ''/tmp/tmp0'' s1 = (Inr zp, sA)"
    unfolding build_artifact_def Let_def jn
    by (simp add: cfg low write_archive_def read_file_def f1 sA_def)
  have fA: "file_history sA = []" "temp_dirs sA = 1" "messages sA = []" "documents sA = []"
    "deleted sA = []"
    by (simp_all add: sA_def f1 write_file_def)
  have rA: "read_file sA zp = Inr Z" by (simp add: sA_def)
  have gA: "getsize sA zp = Inr (length Z)" using rA by (simp add: getsize_read_file)
  have big: "MAX_FILE_SIZE (cfg E) < length Z" by (simp add: cfg lZ P_def)
  have dl: "deliver E zp ''video.mp4'' sA = split_and_send_zip E zp True sA"
    by (simp add: deliver_def gA big low)
  have "\<exists>s2. split_and_send_zip E zp True sA = Some (Inr (True, length Z), s2)"
    by (rule split_and_send_zip_delivers [OF rA]) (simp_all add: cfg P_def)
  then obtain s2 where sp: "split_and_send_zip E zp True sA = Some (Inr (True, length Z), s2)" ..
  from split_and_send_zip_summary [OF sp] rA
  have d: "delivered (new_calls sA s2)
           = parts_sent (tempdir_name (temp_dirs sA)) (basename zp) (MAX_FILE_SIZE (cfg E))
               (split_content E zp True Z)"
    and k: "kept sA s2"
    by auto
  have sc: "split_content E zp True Z = Z" by (simp add: split_content_def)
  have td: "tempdir_name (temp_dirs sA) = ''/tmp/tmp1''"
    by (simp add: fA tempdir_name_def str_nat.simps digit_char_def)
  have c1: "chunks P Z = take P Z # chunks P (drop P Z)"
    by (rule chunks_Cons) (simp add: P_def Z_def)
  have c2: "chunks P (drop P Z) = take P (drop P Z) # chunks P (drop P (drop P Z))"
    by (rule chunks_Cons) (simp add: P_def Z_def)
  have c3: "chunks P (drop P (drop P Z)) = []"
    by (rule chunks_Nil) (simp add: P_def Z_def)
  have ch: "chunks P Z = [replicate (45 * 1024 * 1024) 80, replicate (15 * 1024 * 1024) 80]"
    unfolding c1 c2 c3 by (simp add: P_def Z_def)
  have d2: "map (\<lambda>(p, b, c). (p, length b)) (delivered (new_calls sA s2))
            = [(''/tmp/tmp1/video.mp4.zip.001'', 45 * 1024 * 1024),
               (''/tmp/tmp1/video.mp4.zip.002'', 15 * 1024 * 1024)]"
    unfolding d sc td bn cfg parts_sent_def ch
    by (simp add: part_document_def upt_rec [of 1] upt_rec [of 2]
        join_def fmt_03d_def str_nat.simps digit_char_def numeral_2_eq_2)
  then have len: "length (delivered (new_calls sA s2)) = 2"
    using length_map [of "\<lambda>(p, b, c). (p, length b)" "delivered (new_calls sA s2)"] by simp
  from split_and_send_zip_instructions [OF sp] obtain m where
    ms: "messages s2 = messages sA @ instructions_sent E (basename zp) (Suc (length (delivered (new_calls sA s2)))) m"
    ..
  have body: "map (\<lambda>(chat, text, m). text) (messages s2)
              = [reassembly_instructions E ''video.mp4.zip'' 3]"
    unfolding ms len bn by (simp add: fA instructions_sent_def cfg numeral_3_eq_3)
  have instr: "reassembly_instructions E ''video.mp4.zip'' 3
     = replicate 3 (CHR 0x60) @ [CHR 0x0A]
             @ ''To reassemble the file:'' @ [CHR 0x0A]
             @ ''1. Download all parts (2 in total)'' @ [CHR 0x0A]
             @ ''2. Use one of the following commands:'' @ [CHR 0x0A]
             @ ''   # Windows'' @ [CHR 0x0A]
             @ ''   copy /b video.mp4.zip.zip.* video.mp4.zip.zip'' @ [CHR 0x0A]
             @ [CHR 0x0A]
             @ ''   # Linux/Mac'' @ [CHR 0x0A]
             @ ''   cat video.mp4.zip.zip.* > video.mp4.zip.zip'' @ [CHR 0x0A]
             @ ''3. Extract video.mp4.zip.zip'' @ [CHR 0x0A]
             @ [CHR 0x0A]
             @ ''The ZIP file is not encrypted.'' @ [CHR 0x0A]
             @ replicate 3 (CHR 0x60)"
    by (simp add: reassembly_instructions_def cfg Let_def str_nat.simps digit_char_def)
  define s3 where "s3 = record_success E fp (md5 E F) (length F) ''video.mp4'' (length Z) s2"
  define s4 where "s4 = cleanup ''/tmp/tmp0'' s3"
  have pt: "process_in_temp_dir E fp (md5 E F) (length F) ''video.mp4'' ''/tmp/tmp0'' s1 = Some (Inr (), s3)"
    by (simp add: process_in_temp_dir_def ba new_or_modified_def fA dl sp s3_def)
  have pf: "process_file E fp state_scenario = Some (Inr (), s4)"
    by (simp add: process_file_def calculate_md5_def read_file_def getsize_def f0 bn
        hash_in_history_def extension_not_allowed_def cfg mk pt s4_def)
  have docs: "new_calls state_scenario s4 = new_calls sA s2"
    by (simp add: new_calls_def s4_def s3_def fA state_scenario_def state0_def)
  have msgs: "messages s4 = messages s2"
    by (simp add: s4_def s3_def record_success_def save_data_def send_event_to_backend_def Let_def)
  have np: "\<not> prefix ''video.mp4.zip.zip.'' ''video.mp4.zip.001''"
    "\<not> prefix ''video.mp4.zip.zip.'' ''video.mp4.zip.002''"
    by simp_all
  show ?thesis
    unfolding E_def [symmetric] fp_def [symmetric]
    using pf d2 body np by (intro exI [of _ s4]) (simp add: docs msgs instr)
qed

end
